theory Spec2Isabelle
  imports Complex_Main "HOL-Library.Log_Nat"
begin

section \<open>Strings\<close>

text \<open>
  A JavaScript string is a sequence of 16-bit code units.  The model uses \<open>string\<close>
  (a \<open>char list\<close>) and reads each \<open>char\<close> as the code unit with the same number, so
  that the strings of the model are exactly the JavaScript strings over U+0000 .. U+00FF.
  On these code units the three character tests used by the program are as follows.
\<close>

definition is_digit :: "char \<Rightarrow> bool" where
  \<comment> \<open>the classes \<open>\d\<close> and \<open>[0-9]\<close>\<close>
  "is_digit c = (let n = (of_char c :: nat) in 48 \<le> n \<and> n \<le> 57)"

definition is_space :: "char \<Rightarrow> bool" where
  \<comment> \<open>the class \<open>\s\<close>: TAB, LF, VT, FF, CR, SPACE and NBSP are its members below U+0100\<close>
  "is_space c = (let n = (of_char c :: nat) in (9 \<le> n \<and> n \<le> 13) \<or> n = 32 \<or> n = 160)"

definition toLowerChar :: "char \<Rightarrow> char" where
  \<comment> \<open>A-Z, and the Latin-1 capitals U+00C0 .. U+00DE without the sign U+00D7\<close>
  "toLowerChar c = (let n = (of_char c :: nat) in
     if (65 \<le> n \<and> n \<le> 90) \<or> (192 \<le> n \<and> n \<le> 222 \<and> n \<noteq> 215)
     then char_of (n + 32) else c)"

definition toLowerCase :: "string \<Rightarrow> string" where
  "toLowerCase s = map toLowerChar s"

fun str_includes :: "string \<Rightarrow> string \<Rightarrow> bool" where
  \<comment> \<open>\<open>s.includes(t)\<close>: \<open>t\<close> occurs in \<open>s\<close> at some position\<close>
  "str_includes [] t = (t = [])"
| "str_includes (x # xs) t = (take (length t) (x # xs) = t \<or> str_includes xs t)"

section \<open>Numbers\<close>

text \<open>
  A JavaScript number is a double: a finite binary fraction with a significand of 53
  bits, \<open>+Infinity\<close>, \<open>-Infinity\<close> or \<open>NaN\<close>.  The model takes a finite double as the
  rational it denotes (the two zeros are one) and rounds the exact result of every
  operation to the nearest double, ties to the even significand, as the language does.
  The counters of the summary are natural numbers: an array has fewer than \<open>2 ^ 32\<close>
  elements, and doubles count exactly up to \<open>2 ^ 53\<close>.
\<close>

datatype number = Num rat | PosInf | NegInf | NaN

definition isNaN :: "number \<Rightarrow> bool" where
  "isNaN x = (case x of NaN \<Rightarrow> True | _ \<Rightarrow> False)"

definition round_half_even :: "rat \<Rightarrow> int" where
  \<comment> \<open>the nearest integer; of two nearest ones the even one\<close>
  "round_half_even x = (let f = \<lfloor>x\<rfloor>; r = x - of_int f in
     if r < 1 / 2 then f else if 1 / 2 < r then f + 1 else if even f then f else f + 1)"

definition ilog2 :: "rat \<Rightarrow> int" where
  \<comment> \<open>for \<open>0 < x\<close> the exponent \<open>l\<close> with \<open>2 ^ l \<le> x < 2 ^ (l + 1)\<close>, from the lengths in
      bits of numerator and denominator\<close>
  "ilog2 x = (let (p, q) = quotient_of x;
                  d = bitlen p - bitlen q
              in if 2 powi d \<le> x then d else d - 1)"

definition round_double :: "rat \<Rightarrow> number" where
  \<comment> \<open>the double nearest to \<open>x\<close>: the significand is \<open>x\<close> scaled to 53 bits and rounded, the
      exponent is at least that of the subnormal numbers (\<open>- 1074\<close>), and a result of
      \<open>2 ^ 1024\<close> or more is an infinity\<close>
  "round_double x = (if x = 0 then Num 0 else
     let a = \<bar>x\<bar>;
         e = max (ilog2 a - 52) (- 1074);
         k = round_half_even (a / 2 powi e);
         v = of_int k * 2 powi e
     in if 2 powi 1024 \<le> v then (if 0 < x then PosInf else NegInf)
        else Num (if 0 < x then v else - v))"

definition sign_of :: "number \<Rightarrow> rat" where
  "sign_of x = (case x of Num a \<Rightarrow> sgn a | PosInf \<Rightarrow> 1 | NegInf \<Rightarrow> - 1 | NaN \<Rightarrow> 0)"

fun js_mul :: "number \<Rightarrow> number \<Rightarrow> number" where
  \<comment> \<open>\<open>x * y\<close>: an infinity times 0 is \<open>NaN\<close>, otherwise an infinity with the product of
      the signs\<close>
  "js_mul NaN y = NaN"
| "js_mul x NaN = NaN"
| "js_mul (Num a) (Num b) = round_double (a * b)"
| "js_mul x y = (let s = sign_of x * sign_of y in
     if s = 0 then NaN else if 0 < s then PosInf else NegInf)"

fun js_add :: "number \<Rightarrow> number \<Rightarrow> number" where
  \<comment> \<open>\<open>x + y\<close>: the two infinities added are \<open>NaN\<close>, otherwise an infinity stays\<close>
  "js_add NaN y = NaN"
| "js_add x NaN = NaN"
| "js_add (Num a) (Num b) = round_double (a + b)"
| "js_add PosInf NegInf = NaN"
| "js_add NegInf PosInf = NaN"
| "js_add PosInf y = PosInf"
| "js_add x PosInf = PosInf"
| "js_add NegInf y = NegInf"
| "js_add x NegInf = NegInf"

definition digit_value :: "char \<Rightarrow> nat" where
  "digit_value c = of_char c - 48"

definition dec_value :: "string \<Rightarrow> nat" where
  \<comment> \<open>the value of a decimal digit string, most significant digit first\<close>
  "dec_value s = foldl (\<lambda>a c. 10 * a + digit_value c) 0 s"

definition Number_str :: "string \<Rightarrow> number" where
  \<comment> \<open>\<open>Number(s)\<close> on the strings the program converts, which consist of decimal digits:
      the empty string is 0 and a string of digits is the double nearest to its decimal
      value (the language lets an engine round a literal of more than 20 digits from
      its first 20; the engines round the exact value).  Any other string is answered
      with \<open>NaN\<close>, as a string that is no numeric literal is.\<close>
  "Number_str s = (if list_all is_digit s then round_double (of_nat (dec_value s)) else NaN)"

definition Number_or_zero :: "string option \<Rightarrow> number" where
  \<comment> \<open>\<open>Number(g || 0)\<close> for a capture group \<open>g\<close>: \<open>undefined\<close> and \<open>""\<close> are falsy\<close>
  "Number_or_zero g = (case g of None \<Rightarrow> Num 0
     | Some t \<Rightarrow> if t = [] then Num 0 else Number_str t)"

section \<open>Regular expressions\<close>

text \<open>
  The fragment of regular expressions the program uses, with the backtracking semantics
  of the language: \<open>rmatch r s\<close> lists the ways \<open>r\<close> matches a prefix of \<open>s\<close>, each as
  the capture groups and the rest of \<open>s\<close>, in the order in which the matcher tries them.
  A quantifier is greedy, so the longest repetition comes first and the empty
  alternative of \<open>r?\<close> comes last; a group that takes no part is \<open>undefined\<close> (\<open>None\<close>).
  The quantifiers \<open>+\<close> and \<open>*\<close> stand on a character class, as they do in the program.
\<close>

datatype cclass = Digit | Space | Lit char

fun cmatch :: "cclass \<Rightarrow> char \<Rightarrow> bool" where
  "cmatch Digit c = is_digit c"
| "cmatch Space c = is_space c"
| "cmatch (Lit a) c = (c = a)"

datatype regex =
    Chr cclass
  | Plus cclass
  | Star cclass
  | Opt regex
  | Cap regex
  | Seq regex regex

type_synonym captures = "string option list"

fun ngroups :: "regex \<Rightarrow> nat" where
  "ngroups (Chr c) = 0"
| "ngroups (Plus c) = 0"
| "ngroups (Star c) = 0"
| "ngroups (Opt r) = ngroups r"
| "ngroups (Cap r) = Suc (ngroups r)"
| "ngroups (Seq r1 r2) = ngroups r1 + ngroups r2"

fun rmatch :: "regex \<Rightarrow> string \<Rightarrow> (captures \<times> string) list" where
  "rmatch (Chr c) s = (case s of [] \<Rightarrow> [] | x # xs \<Rightarrow> if cmatch c x then [([], xs)] else [])"
| "rmatch (Plus c) s =
     map (\<lambda>k. ([], drop k s)) (rev [1 ..< Suc (length (takeWhile (cmatch c) s))])"
| "rmatch (Star c) s =
     map (\<lambda>k. ([], drop k s)) (rev [0 ..< Suc (length (takeWhile (cmatch c) s))])"
| "rmatch (Opt r) s = rmatch r s @ [(replicate (ngroups r) None, s)]"
| "rmatch (Cap r) s =
     map (\<lambda>(cs, rest). (Some (take (length s - length rest) s) # cs, rest)) (rmatch r s)"
| "rmatch (Seq r1 r2) s =
     concat (map (\<lambda>(c1, s1). map (\<lambda>(c2, s2). (c1 @ c2, s2)) (rmatch r2 s1)) (rmatch r1 s))"

definition first_match :: "regex \<Rightarrow> string \<Rightarrow> captures option" where
  \<comment> \<open>the captures of the first way to match at the start of \<open>s\<close>, if there is one\<close>
  "first_match r s = (case rmatch r s of [] \<Rightarrow> None | (cs, _) # _ \<Rightarrow> Some cs)"

fun js_match :: "regex \<Rightarrow> string \<Rightarrow> captures option" where
  \<comment> \<open>\<open>s.match(r)\<close> without the global flag: the first way to match at the leftmost
      position that has one, \<open>null\<close> when no position has one\<close>
  "js_match r [] = first_match r []"
| "js_match r (x # xs) =
     (case first_match r (x # xs) of None \<Rightarrow> js_match r xs | Some cs \<Rightarrow> Some cs)"

definition group :: "captures \<Rightarrow> nat \<Rightarrow> string option" where
  \<comment> \<open>\<open>match[i]\<close> for \<open>i \<ge> 1\<close>; an index past the last group reads \<open>undefined\<close>\<close>
  "group m i = (if 1 \<le> i \<and> i \<le> length m then m ! (i - 1) else None)"

definition hm_regex :: regex where
  \<comment> \<open>\<open>/(\d+)h\s*(\d+)?m?/\<close>\<close>
  "hm_regex = Seq (Cap (Plus Digit)) (Seq (Chr (Lit CHR ''h'')) (Seq (Star Space)
     (Seq (Opt (Cap (Plus Digit))) (Opt (Chr (Lit CHR ''m''))))))"

section \<open>The duration normalizer\<close>

datatype time_value = Null | Undefined | Numeric number | Text string

definition parseMinutes :: "time_value \<Rightarrow> number" where
  "parseMinutes v = (case v of
       Null \<Rightarrow> Num 0
     | Undefined \<Rightarrow> Num 0
     | Numeric n \<Rightarrow> n
     | Text t \<Rightarrow>
         (let str = toLowerCase t in
          if str_includes str ''h'' then
            (case js_match hm_regex str of
               None \<Rightarrow> Num 0
             | Some m \<Rightarrow>
                 (let h = Number_or_zero (group m 1);
                      mi = Number_or_zero (group m 2)
                  in js_add (js_mul h (Num 60)) mi))
          else
            (let num = Number_str (filter is_digit str)
             in if isNaN num then Num 0 else num)))"

text \<open>
  The same function with the one failure it could have.  Reading \<open>match[1]\<close> throws a
  \<open>TypeError\<close> when \<open>match\<close> is \<open>null\<close>; the program tests \<open>match\<close> before it reads.
\<close>

datatype error = TypeError

definition read_group :: "captures option \<Rightarrow> nat \<Rightarrow> error + string option" where
  \<comment> \<open>\<open>match[i]\<close>, where \<open>match\<close> may be \<open>null\<close>\<close>
  "read_group match i = (case match of None \<Rightarrow> Inl TypeError | Some m \<Rightarrow> Inr (group m i))"

definition parseMinutes_run :: "time_value \<Rightarrow> error + number" where
  "parseMinutes_run v = (case v of
       Null \<Rightarrow> Inr (Num 0)
     | Undefined \<Rightarrow> Inr (Num 0)
     | Numeric n \<Rightarrow> Inr n
     | Text t \<Rightarrow>
         (let str = toLowerCase t in
          if str_includes str ''h'' then
            (let match = js_match hm_regex str in
             if match = None then Inr (Num 0)
             else (case read_group match 1 of Inl e \<Rightarrow> Inl e | Inr g1 \<Rightarrow>
                   (case read_group match 2 of Inl e \<Rightarrow> Inl e | Inr g2 \<Rightarrow>
                      (let h = Number_or_zero g1;
                           mi = Number_or_zero g2
                       in Inr (js_add (js_mul h (Num 60)) mi)))))
          else
            (let num = Number_str (filter is_digit str)
             in if isNaN num then Inr (Num 0) else Inr num)))"

section \<open>Records, the filter and the chart data\<close>

text \<open>
  The three values below are computed by the program inside \<open>useMemo\<close>, which caches
  the value of its callback; each is modelled as the function its callback computes,
  with the state the callback reads as arguments.
\<close>

record AttendanceRecord =
  record_id :: int
  student_id :: int
  student_name :: string
  status :: string
  parent_notified :: bool
  checkin_time :: "string option"
  checkout_time :: "string option"
  time_spent :: time_value
  date :: "string option"

definition matches_row :: "string \<Rightarrow> string \<Rightarrow> string \<Rightarrow> AttendanceRecord \<Rightarrow> bool" where
  \<comment> \<open>the callback of the filter\<close>
  "matches_row currentSearch currentStatusFilter currentNotifiedFilter row =
     (let matchesSearch = str_includes (toLowerCase (student_name row)) (toLowerCase currentSearch);
          matchesStatus = (currentStatusFilter = ''all'' \<or> status row = currentStatusFilter);
          matchesNotified = (currentNotifiedFilter = ''all'' \<or>
            (currentNotifiedFilter = ''yes'' \<and> parent_notified row) \<or>
            (currentNotifiedFilter = ''no'' \<and> \<not> parent_notified row))
      in matchesSearch \<and> matchesStatus \<and> matchesNotified)"

definition filteredCurrentRecords ::
  "AttendanceRecord list \<Rightarrow> string \<Rightarrow> string \<Rightarrow> string \<Rightarrow> AttendanceRecord list" where
  "filteredCurrentRecords currentRecords currentSearch currentStatusFilter currentNotifiedFilter =
     filter (matches_row currentSearch currentStatusFilter currentNotifiedFilter) currentRecords"

definition chart_source ::
  "string option \<Rightarrow> AttendanceRecord list \<Rightarrow> AttendanceRecord list \<Rightarrow> AttendanceRecord list" where
  \<comment> \<open>\<open>selectedDate ? historyRecords : filteredCurrentRecords\<close>; \<open>null\<close> and \<open>""\<close> are falsy\<close>
  "chart_source selectedDate historyRecords filtered =
     (case selectedDate of None \<Rightarrow> filtered
      | Some d \<Rightarrow> if d = [] then filtered else historyRecords)"

record counts =
  checkedIn :: nat
  checkedOut :: nat
  notified :: nat

definition count_row :: "counts \<Rightarrow> AttendanceRecord \<Rightarrow> counts" where
  \<comment> \<open>the callback of the reduce\<close>
  "count_row acc row =
     (let acc1 = (if status row = ''checked_in'' then acc\<lparr>checkedIn := checkedIn acc + 1\<rparr> else acc);
          acc2 = (if status row = ''checked_out'' then acc1\<lparr>checkedOut := checkedOut acc1 + 1\<rparr> else acc1);
          acc3 = (if parent_notified row then acc2\<lparr>notified := notified acc2 + 1\<rparr> else acc2)
      in acc3)"

definition status_counts :: "AttendanceRecord list \<Rightarrow> counts" where
  "status_counts source = foldl count_row \<lparr>checkedIn = 0, checkedOut = 0, notified = 0\<rparr> source"

definition statusChartData :: "AttendanceRecord list \<Rightarrow> (string \<times> nat) list" where
  "statusChartData source =
     (let c = status_counts source
      in [(''Checked In'', checkedIn c), (''Checked Out'', checkedOut c), (''Notified'', notified c)])"

record DurationPoint =
  name :: string
  minutes :: number

definition timeChartData :: "AttendanceRecord list \<Rightarrow> DurationPoint list" where
  "timeChartData source =
     map (\<lambda>row. \<lparr>name = student_name row, minutes = parseMinutes (time_spent row)\<rparr>) source"

fun timeChartData_run :: "AttendanceRecord list \<Rightarrow> error + DurationPoint list" where
  \<comment> \<open>the map with \<open>parseMinutes_run\<close>: an exception in the callback ends the map\<close>
  "timeChartData_run [] = Inr []"
| "timeChartData_run (row # rows) =
     (case parseMinutes_run (time_spent row) of Inl e \<Rightarrow> Inl e | Inr m \<Rightarrow>
      (case timeChartData_run rows of Inl e \<Rightarrow> Inl e | Inr points \<Rightarrow>
         Inr (\<lparr>name = student_name row, minutes = m\<rparr> # points)))"

section \<open>The pattern read directly\<close>

text \<open>
  The definitions of this section do not come from the program.  They state what the
  pattern \<open>(\d+)h\s*(\d+)?m?\<close> finds in words of lists, what an integer number of
  minutes is, and when two letters differ in case only, so that the results of the
  program can be compared with them.
\<close>

fun seq_first :: "regex \<Rightarrow> (captures \<times> string) list \<Rightarrow> captures option" where
  \<comment> \<open>the first of the ways \<open>l\<close> after which \<open>r2\<close> matches, with the captures of both\<close>
  "seq_first r2 [] = None"
| "seq_first r2 ((c1, s1) # l) =
     (case first_match r2 s1 of None \<Rightarrow> seq_first r2 l | Some c2 \<Rightarrow> Some (c1 @ c2))"

definition tail_regex :: regex where
  \<comment> \<open>\<open>(\d+)?m?\<close>\<close>
  "tail_regex = Seq (Opt (Cap (Plus Digit))) (Opt (Chr (Lit CHR ''m'')))"

definition space_regex :: regex where
  \<comment> \<open>\<open>\s*(\d+)?m?\<close>\<close>
  "space_regex = Seq (Star Space) tail_regex"

definition h_regex :: regex where
  \<comment> \<open>\<open>h\s*(\d+)?m?\<close>\<close>
  "h_regex = Seq (Chr (Lit CHR ''h'')) space_regex"

definition hm_at :: "string \<Rightarrow> captures option" where
  \<comment> \<open>the match at the start of \<open>s\<close>: the digits at the start, an \<open>h\<close> right after them,
      and the digits that follow the white space after the \<open>h\<close>, if there are any\<close>
  "hm_at s = (let d = takeWhile is_digit s in
     if d = [] then None
     else (case dropWhile is_digit s of [] \<Rightarrow> None
       | x # xs \<Rightarrow> if x = CHR ''h''
           then Some [Some d, let d2 = takeWhile is_digit (dropWhile is_space xs)
                               in if d2 = [] then None else Some d2]
           else None))"

fun digit_then_h :: "string \<Rightarrow> bool" where
  \<comment> \<open>some digit of \<open>s\<close> has an \<open>h\<close> right after it\<close>
  "digit_then_h (a # b # s) = ((is_digit a \<and> b = CHR ''h'') \<or> digit_then_h (b # s))"
| "digit_then_h _ = False"

definition is_minutes :: "number \<Rightarrow> bool" where
  \<comment> \<open>an integer that is at least 0\<close>
  "is_minutes x = (case x of Num q \<Rightarrow> 0 \<le> q \<and> of_int \<lfloor>q\<rfloor> = q | _ \<Rightarrow> False)"

definition hm_minutes :: "nat \<Rightarrow> nat \<Rightarrow> number" where
  \<comment> \<open>\<open>h * 60 + m\<close> as the program computes it from the digits of the hours and of the
      minutes: three roundings to a double\<close>
  "hm_minutes hours mins =
     js_add (js_mul (round_double (of_nat hours)) (Num 60)) (round_double (of_nat mins))"

definition capitals :: string where
  \<comment> \<open>the capital letters below U+0100: A to Z, and U+00C0 to U+00DE without U+00D7\<close>
  "capitals = ''ABCDEFGHIJKLMNOPQRSTUVWXYZ'' @
     map char_of ([192 ..< 215] @ [216 ..< 223 :: nat])"

definition same_letter :: "char \<Rightarrow> char \<Rightarrow> bool" where
  \<comment> \<open>equal, or a capital letter and its small letter: the small letter of a capital is
      32 code units after it\<close>
  "same_letter a b = (a = b \<or>
     (a \<in> set capitals \<and> (of_char b :: nat) = of_char a + 32) \<or>
     (b \<in> set capitals \<and> (of_char a :: nat) = of_char b + 32))"

section \<open>The scenario of the specification\<close>

definition ann :: AttendanceRecord where
  "ann = \<lparr>record_id = 1, student_id = 11, student_name = ''Ann'', status = ''checked_in'',
     parent_notified = True, checkin_time = None, checkout_time = None,
     time_spent = Text ''1h 15m'', date = None\<rparr>"

definition bo :: AttendanceRecord where
  "bo = \<lparr>record_id = 2, student_id = 12, student_name = ''Bo'', status = ''checked_out'',
     parent_notified = False, checkin_time = None, checkout_time = None,
     time_spent = Numeric (Num 30), date = None\<rparr>"

definition late :: AttendanceRecord where
  \<comment> \<open>a record with a status outside the two known ones\<close>
  "late = \<lparr>record_id = 3, student_id = 13, student_name = ''Ann'', status = ''late'',
     parent_notified = True, checkin_time = None, checkout_time = None,
     time_spent = Text ''45 min'', date = None\<rparr>"

section \<open>The matcher on the pattern of the program\<close>

lemma first_match_Nil_iff: "first_match r s = None \<longleftrightarrow> rmatch r s = []"
  by (auto simp: first_match_def split: list.splits)

lemma first_concat:
  "(case concat (map (\<lambda>(c1, s1). map (\<lambda>(c2, s2). (c1 @ c2, s2)) (rmatch r2 s1)) l) of
      [] \<Rightarrow> None | (cs, _) # _ \<Rightarrow> Some cs) = seq_first r2 l"
proof (induction l)
  case Nil
  show ?case by simp
next
  case (Cons a l)
  obtain c1 s1 where a: "a = (c1, s1)" by (cases a)
  show ?case
  proof (cases "rmatch r2 s1")
    case Nil
    then have "first_match r2 s1 = None" by (simp add: first_match_def)
    then show ?thesis using Cons.IH Nil a by simp
  next
    case (Cons b bs)
    obtain c2 s2 where b: "b = (c2, s2)" by (cases b)
    have "first_match r2 s1 = Some c2" using Cons b by (simp add: first_match_def)
    then show ?thesis using Cons a b by simp
  qed
qed

lemma first_match_Seq: "first_match (Seq r1 r2) s = seq_first r2 (rmatch r1 s)"
  unfolding first_match_def rmatch.simps by (rule first_concat)

lemma first_match_Opt_Chr: "first_match (Opt (Chr c)) s = Some []"
  by (cases s) (auto simp: first_match_def)

lemma rmatch_Cap_Plus:
  "rmatch (Cap (Plus c)) s =
     map (\<lambda>k. ([Some (take k s)], drop k s)) (rev [1 ..< Suc (length (takeWhile (cmatch c) s))])"
proof -
  have "length (takeWhile (cmatch c) s) \<le> length s"
    by (rule length_takeWhile_le)
  then show ?thesis by (auto simp: comp_def rev_map diff_diff_cancel)
qed

lemma cmatch_Digit: "cmatch Digit = is_digit"
  by (rule ext) simp

lemma cmatch_Space: "cmatch Space = is_space"
  by (rule ext) simp

lemma take_length_takeWhile: "take (length (takeWhile P s)) s = takeWhile P s"
  by (metis takeWhile_eq_take)

lemma drop_length_takeWhile: "drop (length (takeWhile P s)) s = dropWhile P s"
  by (metis dropWhile_eq_drop)

lemma first_tail:
  "first_match tail_regex w =
     Some [if takeWhile is_digit w = [] then None else Some (takeWhile is_digit w)]"
proof (cases "length (takeWhile is_digit w)")
  case 0
  then have "rmatch (Opt (Cap (Plus Digit))) w = [([None], w)]"
    unfolding rmatch.simps(4) rmatch_Cap_Plus cmatch_Digit by simp
  then show ?thesis
    unfolding tail_regex_def first_match_Seq using 0
    by (simp add: first_match_Opt_Chr)
next
  case (Suc n)
  have "rmatch (Opt (Cap (Plus Digit))) w =
      ([Some (take (Suc n) w)], drop (Suc n) w) #
        map (\<lambda>k. ([Some (take k w)], drop k w)) (rev [1 ..< Suc n]) @ [([None], w)]"
    unfolding rmatch.simps(4) rmatch_Cap_Plus cmatch_Digit Suc by simp
  moreover have "take (Suc n) w = takeWhile is_digit w"
    using take_length_takeWhile [of is_digit w] Suc by simp
  moreover have "takeWhile is_digit w \<noteq> []" using Suc by auto
  ultimately show ?thesis
    unfolding tail_regex_def first_match_Seq
    by (simp add: first_match_Opt_Chr)
qed

lemma first_space:
  "first_match space_regex xs =
     Some [let d = takeWhile is_digit (dropWhile is_space xs) in if d = [] then None else Some d]"
proof -
  have "rmatch (Star Space) xs =
      ([], dropWhile is_space xs) #
        map (\<lambda>k. ([], drop k xs)) (rev [0 ..< length (takeWhile is_space xs)])"
    unfolding rmatch.simps cmatch_Space by (simp add: drop_length_takeWhile)
  then show ?thesis
    unfolding space_regex_def first_match_Seq by (simp add: first_tail Let_def)
qed

lemma first_h:
  "first_match h_regex s = (case s of [] \<Rightarrow> None | x # xs \<Rightarrow>
     if x = CHR ''h'' then first_match space_regex xs else None)"
  unfolding h_regex_def first_match_Seq by (cases s) (auto split: option.splits)

lemma hm_regex_split: "hm_regex = Seq (Cap (Plus Digit)) h_regex"
  by (simp add: hm_regex_def h_regex_def space_regex_def tail_regex_def)

lemma is_digit_h: "\<not> is_digit CHR ''h''"
  by (simp add: is_digit_def)

lemma seq_first_h_digits:
  assumes "\<forall>k \<in> set ks. k < length s \<and> is_digit (s ! k)"
  shows "seq_first h_regex (map (\<lambda>k. ([Some (take k s)], drop k s)) ks) = None"
  using assms
proof (induction ks)
  case Nil
  show ?case by simp
next
  case (Cons k ks)
  then have k: "k < length s" "is_digit (s ! k)" by auto
  then have "drop k s = s ! k # drop (Suc k) s"
    by (simp add: Cons_nth_drop_Suc)
  moreover have "s ! k \<noteq> CHR ''h''" using k is_digit_h by auto
  ultimately have "first_match h_regex (drop k s) = None"
    by (simp add: first_h)
  then show ?case using Cons by simp
qed

lemma first_match_hm: "first_match hm_regex s = hm_at s"
proof (cases "length (takeWhile is_digit s)")
  case 0
  then have "rmatch (Cap (Plus Digit)) s = []"
    unfolding rmatch_Cap_Plus cmatch_Digit by simp
  then show ?thesis
    unfolding hm_regex_split first_match_Seq using 0 by (simp add: hm_at_def)
next
  case (Suc n)
  have ne: "takeWhile is_digit s \<noteq> []" using Suc by auto
  have tk: "take (Suc n) s = takeWhile is_digit s"
    using take_length_takeWhile [of is_digit s] Suc by simp
  have dr: "drop (Suc n) s = dropWhile is_digit s"
    using drop_length_takeWhile [of is_digit s] Suc by simp
  have run: "\<forall>k \<in> set (rev [1 ..< Suc n]). k < length s \<and> is_digit (s ! k)"
  proof
    fix k assume "k \<in> set (rev [1 ..< Suc n])"
    then have kn: "k < length (takeWhile is_digit s)" using Suc by auto
    then have "takeWhile is_digit s ! k = s ! k" by (rule takeWhile_nth)
    moreover have "takeWhile is_digit s ! k \<in> set (takeWhile is_digit s)"
      using kn by (rule nth_mem)
    ultimately have "is_digit (s ! k)" by (metis set_takeWhileD)
    moreover have "k < length s"
      using kn length_takeWhile_le [of is_digit s] by simp
    ultimately show "k < length s \<and> is_digit (s ! k)" by simp
  qed
  have "rmatch (Cap (Plus Digit)) s =
      ([Some (takeWhile is_digit s)], dropWhile is_digit s) #
        map (\<lambda>k. ([Some (take k s)], drop k s)) (rev [1 ..< Suc n])"
    unfolding rmatch_Cap_Plus cmatch_Digit Suc using tk dr by simp
  then have "seq_first h_regex (rmatch (Cap (Plus Digit)) s) =
      (case first_match h_regex (dropWhile is_digit s) of
         None \<Rightarrow> seq_first h_regex (map (\<lambda>k. ([Some (take k s)], drop k s)) (rev [1 ..< Suc n]))
       | Some c2 \<Rightarrow> Some ([Some (takeWhile is_digit s)] @ c2))"
    by (simp only: seq_first.simps)
  then have "first_match hm_regex s =
      (case first_match h_regex (dropWhile is_digit s) of None \<Rightarrow> None
       | Some c2 \<Rightarrow> Some ([Some (takeWhile is_digit s)] @ c2))"
    by (simp only: hm_regex_split first_match_Seq seq_first_h_digits [OF run])
  then have fm: "first_match hm_regex s =
      (case first_match h_regex (dropWhile is_digit s) of None \<Rightarrow> None
       | Some c2 \<Rightarrow> Some ([Some (takeWhile is_digit s)] @ c2))" .
  show ?thesis
  proof (cases "dropWhile is_digit s")
    case Nil
    show ?thesis unfolding fm hm_at_def Let_def Nil first_h using ne by simp
  next
    case (Cons x xs)
    show ?thesis unfolding fm hm_at_def Let_def Cons first_h first_space using ne by simp
  qed
qed

lemma js_match_hm_Nil: "js_match hm_regex [] = None"
  by (simp add: first_match_hm hm_at_def)

lemma js_match_hm_Cons:
  "js_match hm_regex (x # xs) =
     (case hm_at (x # xs) of None \<Rightarrow> js_match hm_regex xs | Some cs \<Rightarrow> Some cs)"
  by (simp add: first_match_hm)

lemma digit_then_h_Cons: "digit_then_h s \<Longrightarrow> digit_then_h (x # s)"
  by (cases s) auto

lemma digit_then_h_run:
  "d \<noteq> [] \<Longrightarrow> \<forall>c \<in> set d. is_digit c \<Longrightarrow> digit_then_h (d @ CHR ''h'' # xs)"
proof (induction d)
  case Nil
  then show ?case by simp
next
  case (Cons a d)
  show ?case
  proof (cases d)
    case Nil
    then show ?thesis using Cons.prems by simp
  next
    case (Cons b d')
    then have "digit_then_h (d @ CHR ''h'' # xs)" using Cons.IH Cons.prems by simp
    then show ?thesis using Cons by simp
  qed
qed

lemma hm_at_SomeD:
  assumes "hm_at s = Some cs"
  shows "\<exists>d xs. s = d @ CHR ''h'' # xs \<and> d \<noteq> [] \<and> (\<forall>c \<in> set d. is_digit c) \<and>
            cs = [Some d, let d2 = takeWhile is_digit (dropWhile is_space xs)
                          in if d2 = [] then None else Some d2]"
proof -
  let ?d = "takeWhile is_digit s"
  from assms have ne: "?d \<noteq> []"
    by (auto simp: hm_at_def Let_def split: if_splits)
  from assms ne obtain xs where dr: "dropWhile is_digit s = CHR ''h'' # xs"
    and cs: "cs = [Some ?d, let d2 = takeWhile is_digit (dropWhile is_space xs)
                          in if d2 = [] then None else Some d2]"
    by (auto simp: hm_at_def Let_def split: if_splits list.splits)
  have "s = ?d @ dropWhile is_digit s" by simp
  then have "s = ?d @ CHR ''h'' # xs" using dr by simp
  moreover have "\<forall>c \<in> set ?d. is_digit c" by (auto dest: set_takeWhileD)
  ultimately show ?thesis using ne cs by blast
qed

lemma hm_at_run:
  assumes "d \<noteq> []" "\<forall>c \<in> set d. is_digit c"
  shows "hm_at (d @ CHR ''h'' # xs) =
     Some [Some d, let d2 = takeWhile is_digit (dropWhile is_space xs)
                   in if d2 = [] then None else Some d2]"
proof -
  have "takeWhile is_digit (d @ CHR ''h'' # xs) = d"
    using assms(2) by (simp add: takeWhile_append2 is_digit_h)
  moreover have "dropWhile is_digit (d @ CHR ''h'' # xs) = CHR ''h'' # xs"
    using assms(2) by (simp add: dropWhile_append2 is_digit_h)
  ultimately show ?thesis using assms(1) by (simp add: hm_at_def)
qed

lemma hm_at_digit_then_h: "hm_at s = Some cs \<Longrightarrow> digit_then_h s"
  using hm_at_SomeD digit_then_h_run by blast

lemma js_match_hm_None: "\<not> digit_then_h s \<Longrightarrow> js_match hm_regex s = None"
proof (induction s)
  case Nil
  show ?case by (rule js_match_hm_Nil)
next
  case (Cons x xs)
  have "hm_at (x # xs) = None"
    using Cons.prems hm_at_digit_then_h by (cases "hm_at (x # xs)") auto
  moreover have "\<not> digit_then_h xs"
    using Cons.prems digit_then_h_Cons by blast
  ultimately show ?case using Cons.IH by (simp add: js_match_hm_Cons del: js_match.simps)
qed

lemma hm_at_None_prefix:
  assumes "pre \<noteq> []" "\<not> is_digit (last pre)" "\<not> digit_then_h pre"
  shows "hm_at (pre @ t) = None"
proof -
  have ex: "last pre \<in> set pre" using assms(1) by simp
  have tk: "takeWhile is_digit (pre @ t) = takeWhile is_digit pre"
    using ex assms(2) by (rule takeWhile_append1)
  have dr: "dropWhile is_digit (pre @ t) = dropWhile is_digit pre @ t"
    using ex assms(2) by (rule dropWhile_append1)
  show ?thesis
  proof (cases "hm_at (pre @ t)")
    case None
    then show ?thesis .
  next
    case (Some cs)
    then have ne: "takeWhile is_digit pre \<noteq> []"
      by (auto simp: hm_at_def Let_def tk split: if_splits)
    have "dropWhile is_digit pre \<noteq> []"
      using ex assms(2) by (auto simp: dropWhile_eq_Nil_conv)
    then obtain y ys where y: "dropWhile is_digit pre = y # ys"
      by (cases "dropWhile is_digit pre") auto
    then have "y = CHR ''h''"
      using Some ne by (auto simp: hm_at_def Let_def tk dr split: if_splits)
    then have "pre = takeWhile is_digit pre @ CHR ''h'' # ys"
      using y by (metis takeWhile_dropWhile_id)
    moreover have "\<forall>c \<in> set (takeWhile is_digit pre). is_digit c"
      by (auto dest: set_takeWhileD)
    ultimately have "digit_then_h pre"
      using ne digit_then_h_run by metis
    then show ?thesis using assms(3) by simp
  qed
qed

lemma js_match_hm_decomp:
  assumes "ds \<noteq> []" "\<forall>c \<in> set ds. is_digit c"
  shows "pre = [] \<or> \<not> is_digit (last pre) \<Longrightarrow> \<not> digit_then_h pre \<Longrightarrow>
     js_match hm_regex (pre @ ds @ CHR ''h'' # rest) =
       Some [Some ds, let d2 = takeWhile is_digit (dropWhile is_space rest)
                      in if d2 = [] then None else Some d2]"
proof (induction pre)
  case Nil
  obtain x xs where "ds @ CHR ''h'' # rest = x # xs"
    using assms(1) by (cases ds) auto
  then have "js_match hm_regex (ds @ CHR ''h'' # rest) =
      (case hm_at (ds @ CHR ''h'' # rest) of None \<Rightarrow> js_match hm_regex xs | Some cs \<Rightarrow> Some cs)"
    using js_match_hm_Cons [of x xs] by simp
  then show ?case using hm_at_run [OF assms] by simp
next
  case (Cons x pre)
  have nd: "\<not> is_digit (last (x # pre))" using Cons.prems(1) by simp
  have "hm_at ((x # pre) @ ds @ CHR ''h'' # rest) = None"
    using nd Cons.prems(2) by (intro hm_at_None_prefix) simp_all
  then have 1: "js_match hm_regex ((x # pre) @ ds @ CHR ''h'' # rest) =
      js_match hm_regex (pre @ ds @ CHR ''h'' # rest)"
    using js_match_hm_Cons [of x "pre @ ds @ CHR ''h'' # rest"] by simp
  have 2: "pre = [] \<or> \<not> is_digit (last pre)" using nd by (cases pre) auto
  have 3: "\<not> digit_then_h pre" using Cons.prems(2) digit_then_h_Cons by blast
  show ?case unfolding 1 using Cons.IH [OF 2 3] .
qed

lemma of_char_toLowerChar:
  "(of_char (toLowerChar c) :: nat) =
     (let n = of_char c in
      if (65 \<le> n \<and> n \<le> 90) \<or> (192 \<le> n \<and> n \<le> 222 \<and> n \<noteq> 215) then n + 32 else n)"
  by (auto simp: toLowerChar_def Let_def)

lemma is_digit_toLowerChar: "is_digit (toLowerChar c) \<longleftrightarrow> is_digit c"
  unfolding is_digit_def of_char_toLowerChar by (auto simp: Let_def)

lemma toLowerChar_digit: "is_digit c \<Longrightarrow> toLowerChar c = c"
  by (auto simp: toLowerChar_def is_digit_def Let_def)

lemma of_char_h: "(of_char CHR ''h'' :: nat) = 104" "(of_char CHR ''H'' :: nat) = 72"
  by simp_all

lemma toLowerChar_eq_h: "toLowerChar c = CHR ''h'' \<longleftrightarrow> c = CHR ''h'' \<or> c = CHR ''H''"
proof -
  have "toLowerChar c = CHR ''h'' \<longleftrightarrow> (of_char (toLowerChar c) :: nat) = of_char CHR ''h''"
    by (simp only: of_char_eq_iff)
  also have "\<dots> \<longleftrightarrow> (of_char c :: nat) = 104 \<or> (of_char c :: nat) = 72"
    unfolding of_char_toLowerChar of_char_h by (auto simp: Let_def)
  also have "\<dots> \<longleftrightarrow> (of_char c :: nat) = of_char CHR ''h'' \<or> (of_char c :: nat) = of_char CHR ''H''"
    by (simp only: of_char_h)
  also have "\<dots> \<longleftrightarrow> c = CHR ''h'' \<or> c = CHR ''H''"
    by (simp only: of_char_eq_iff)
  finally show ?thesis .
qed

lemma filter_digit_toLowerCase: "filter is_digit (toLowerCase t) = filter is_digit t"
  by (induction t) (auto simp: toLowerCase_def is_digit_toLowerChar toLowerChar_digit)

lemma str_includes_single: "str_includes s [c] \<longleftrightarrow> c \<in> set s"
proof (induction s)
  case Nil
  show ?case by simp
next
  case (Cons x xs)
  then show ?case by auto
qed

lemma includes_h_iff:
  "str_includes (toLowerCase t) ''h'' \<longleftrightarrow> CHR ''h'' \<in> set t \<or> CHR ''H'' \<in> set t"
proof -
  have "CHR ''h'' \<in> set (map toLowerChar t) \<longleftrightarrow> (\<exists>c \<in> set t. toLowerChar c = CHR ''h'')"
    by (auto simp: image_iff) (metis imageI)
  then show ?thesis
    unfolding str_includes_single toLowerCase_def toLowerChar_eq_h by blast
qed

section \<open>Rounding to a double\<close>

text \<open>
  A natural number below \<open>2 ^ 53\<close> is a double; a larger one is rounded to a natural
  number again or to \<open>+Infinity\<close>, and from \<open>2 ^ 1024\<close> on always to \<open>+Infinity\<close>.
\<close>

lemma round_half_even_of_int: "round_half_even (of_int z) = z"
  by (simp add: round_half_even_def)

lemma round_half_even_nonneg: "0 \<le> x \<Longrightarrow> 0 \<le> round_half_even x"
  by (auto simp: round_half_even_def Let_def)

lemma bitlen_1: "bitlen 1 = 1"
  by (simp add: bitlen_alt_def)

lemma bitlen_pos: "0 < x \<Longrightarrow> 1 \<le> bitlen x"
  by (simp add: bitlen_alt_def)

lemma ilog2_of_nat:
  assumes "0 < n"
  shows "ilog2 (of_nat n) = bitlen (int n) - 1"
proof -
  have pos: "0 < int n" using assms by simp
  have b: "1 \<le> bitlen (int n)" using pos by (rule bitlen_pos)
  have "2 ^ nat (bitlen (int n) - 1) \<le> int n"
    using bitlen_bounds [OF pos] by simp
  then have "(of_int (2 ^ nat (bitlen (int n) - 1)) :: rat) \<le> of_int (int n)"
    by (simp only: of_int_le_iff)
  then have "(2::rat) powi (bitlen (int n) - 1) \<le> of_nat n"
    using b by (simp add: power_int_def)
  then show ?thesis
    by (simp add: ilog2_def bitlen_1)
qed

lemma round_double_0: "round_double 0 = Num 0"
  by (simp add: round_double_def)

lemma round_double_nat_exact:
  assumes "n < 2 ^ 53"
  shows "round_double (of_nat n) = Num (of_nat n)"
proof (cases "n = 0")
  case True
  then show ?thesis by (simp add: round_double_0)
next
  case False
  then have pos: "0 < n" by simp
  have b1: "1 \<le> bitlen (int n)" using pos by (simp add: bitlen_pos)
  have "int n < 2 ^ nat 53" using assms by (simp flip: of_nat_less_iff)
  then have b2: "bitlen (int n) \<le> 53"
    by (simp add: bitlen_le_iff_power)
  define j where "j = nat (53 - bitlen (int n))"
  have e: "max (ilog2 (of_nat n) - 52) (- 1074) = - int j"
    using b1 b2 by (simp add: ilog2_of_nat [OF pos] j_def)
  have p: "(2::rat) powi (- int j) = inverse (2 ^ j)"
    by (simp add: power_int_minus)
  have q: "rat_of_nat n / inverse (2 ^ j) = of_int (int n * 2 ^ j)"
    by (simp add: field_simps)
  have k: "round_half_even (rat_of_nat n / inverse (2 ^ j)) = int n * 2 ^ j"
    unfolding q by (rule round_half_even_of_int)
  have v: "of_int (int n * 2 ^ j) * inverse (2 ^ j) = rat_of_nat n"
    by (simp add: field_simps)
  have "rat_of_nat n < 2 ^ 53" using assms by (simp flip: of_nat_less_iff add: of_nat_power [symmetric] del: of_nat_power)
  also have "\<dots> \<le> (2::rat) ^ 1024" by (rule power_increasing) simp_all
  finally have nov: "\<not> (2::rat) powi 1024 \<le> rat_of_nat n" by simp
  have x: "rat_of_nat n \<noteq> 0" "0 < rat_of_nat n" "\<bar>rat_of_nat n\<bar> = rat_of_nat n"
    using pos by simp_all
  show ?thesis
    unfolding round_double_def Let_def x(3) e p k v using x(1,2) nov by simp
qed


lemma is_minutes_iff: "is_minutes x \<longleftrightarrow> (\<exists>k::nat. x = Num (of_nat k))"
proof
  assume "is_minutes x"
  then obtain q where q: "x = Num q" "0 \<le> q" "of_int \<lfloor>q\<rfloor> = q"
    by (cases x) (auto simp: is_minutes_def)
  have "0 \<le> \<lfloor>q\<rfloor>" using q(2) by simp
  then have "rat_of_nat (nat \<lfloor>q\<rfloor>) = of_int \<lfloor>q\<rfloor>" by simp
  then have "x = Num (of_nat (nat \<lfloor>q\<rfloor>))" using q(1,3) by simp
  then show "\<exists>k::nat. x = Num (of_nat k)" by blast
next
  assume "\<exists>k::nat. x = Num (of_nat k)"
  then show "is_minutes x" by (auto simp: is_minutes_def)
qed

lemma round_double_nat_cases:
  "is_minutes (round_double (of_nat n)) \<or> round_double (of_nat n) = PosInf"
proof (cases "n < 2 ^ 53")
  case True
  then show ?thesis by (simp add: round_double_nat_exact is_minutes_iff)
next
  case False
  then have big: "2 ^ 53 \<le> n" by simp
  then have pos: "0 < n" by (metis zero_less_numeral zero_less_power less_le_trans)
  have "(2::int) ^ 53 \<le> int n" using big by (simp flip: of_nat_le_iff)
  then have b: "54 \<le> bitlen (int n)"
    by (simp add: bitlen_ge_iff_power)
  define j where "j = nat (bitlen (int n) - 53)"
  have e: "max (ilog2 (of_nat n) - 52) (- 1074) = int j"
    using b by (simp add: ilog2_of_nat [OF pos] j_def)
  define k where "k = round_half_even (rat_of_nat n / 2 ^ j)"
  have "0 \<le> rat_of_nat n / 2 ^ j" by simp
  then have k0: "0 \<le> k" unfolding k_def by (rule round_half_even_nonneg)
  define w where "w = rat_of_int k * 2 ^ j"
  have v: "w = of_nat (nat k * 2 ^ j)"
    using k0 by (simp add: w_def)
  have x1: "(rat_of_nat n = 0) = False" and x2: "(0 < rat_of_nat n) = True"
    and x3: "\<bar>rat_of_nat n\<bar> = rat_of_nat n"
    using pos by simp_all
  have rd: "round_double (of_nat n) = (if 2 powi 1024 \<le> w then PosInf else Num w)"
    unfolding round_double_def Let_def x3 e power_int_of_nat k_def [symmetric] w_def [symmetric]
    by (simp only: x1 x2 if_True if_False)
  show ?thesis
  proof (cases "2 powi 1024 \<le> w")
    case True
    then have "round_double (of_nat n) = PosInf" unfolding rd by (simp only: if_True)
    then show ?thesis by (rule disjI2)
  next
    case False
    then have "round_double (of_nat n) = Num w" unfolding rd by (simp only: if_False)
    then have "round_double (of_nat n) = Num (of_nat (nat k * 2 ^ j))" unfolding v .
    then have "is_minutes (round_double (of_nat n))" unfolding is_minutes_iff by blast
    then show ?thesis by (rule disjI1)
  qed
qed

lemma round_double_not_NaN: "round_double x \<noteq> NaN"
  by (simp add: round_double_def Let_def)

lemma js_mul_60_cases:
  assumes "is_minutes x \<or> x = PosInf"
  shows "is_minutes (js_mul x (Num 60)) \<or> js_mul x (Num 60) = PosInf"
  using assms
proof
  assume "is_minutes x"
  then obtain a :: nat where a: "x = Num (of_nat a)" unfolding is_minutes_iff by blast
  have "js_mul x (Num 60) = round_double (of_nat (a * 60))" unfolding a by simp
  then show ?thesis using round_double_nat_cases [of "a * 60"] by simp
next
  assume "x = PosInf"
  then have "js_mul x (Num 60) = PosInf" by (simp add: sign_of_def)
  then show ?thesis by (rule disjI2)
qed

lemma js_add_cases:
  assumes "is_minutes x \<or> x = PosInf" "is_minutes y \<or> y = PosInf"
  shows "is_minutes (js_add x y) \<or> js_add x y = PosInf"
proof (cases "x = PosInf \<or> y = PosInf")
  case True
  then have "js_add x y = PosInf"
    using assms by (cases x; cases y) (auto simp: is_minutes_def)
  then show ?thesis by (rule disjI2)
next
  case False
  then obtain c d :: nat where cd: "x = Num (of_nat c)" "y = Num (of_nat d)"
    using assms unfolding is_minutes_iff by blast
  have "js_add x y = round_double (of_nat (c + d))" unfolding cd by simp
  then show ?thesis using round_double_nat_cases [of "c + d"] by simp
qed

lemma hm_minutes_cases: "is_minutes (hm_minutes h m) \<or> hm_minutes h m = PosInf"
  unfolding hm_minutes_def
  by (intro js_add_cases js_mul_60_cases round_double_nat_cases)

lemma hm_minutes_exact:
  assumes "h * 60 + m < 2 ^ 53"
  shows "hm_minutes h m = Num (of_nat (h * 60 + m))"
proof -
  have 1: "round_double (of_nat h) = Num (of_nat h)"
    using assms by (intro round_double_nat_exact) simp
  have 2: "round_double (of_nat m) = Num (of_nat m)"
    using assms by (intro round_double_nat_exact) simp
  have "js_mul (Num (of_nat h)) (Num 60) = round_double (of_nat (h * 60))" by simp
  also have "\<dots> = Num (of_nat (h * 60))"
    using assms by (intro round_double_nat_exact) simp
  finally have 3: "js_mul (Num (of_nat h)) (Num 60) = Num (of_nat (h * 60))" .
  have "js_add (Num (of_nat (h * 60))) (Num (of_nat m)) = round_double (of_nat (h * 60 + m))"
    by simp
  also have "\<dots> = Num (of_nat (h * 60 + m))"
    using assms by (rule round_double_nat_exact)
  finally show ?thesis
    unfolding hm_minutes_def 1 2 3 .
qed

section \<open>The duration normalizer, branch by branch\<close>

lemma Number_str_digits:
  "\<forall>c \<in> set s. is_digit c \<Longrightarrow> Number_str s = round_double (of_nat (dec_value s))"
  by (simp add: Number_str_def list_all_iff)

lemma Number_or_zero_digits:
  "\<forall>c \<in> set s. is_digit c \<Longrightarrow> Number_or_zero (Some s) = round_double (of_nat (dec_value s))"
  by (cases s) (simp_all add: Number_or_zero_def Number_str_digits dec_value_def round_double_0)

lemma Number_or_zero_group2:
  "Number_or_zero (let d2 = takeWhile is_digit w in if d2 = [] then None else Some d2)
     = round_double (of_nat (dec_value (takeWhile is_digit w)))"
proof (cases "takeWhile is_digit w = []")
  case True
  then show ?thesis by (simp add: Number_or_zero_def dec_value_def round_double_0)
next
  case False
  have "\<forall>c \<in> set (takeWhile is_digit w). is_digit c" by (auto dest: set_takeWhileD)
  then show ?thesis using False by (simp add: Number_or_zero_digits)
qed

lemma parseMinutes_no_h:
  assumes "\<not> str_includes (toLowerCase t) ''h''"
  shows "parseMinutes (Text t) = round_double (of_nat (dec_value (filter is_digit t)))"
proof -
  have "\<forall>c \<in> set (filter is_digit t). is_digit c" by simp
  then have "Number_str (filter is_digit t) = round_double (of_nat (dec_value (filter is_digit t)))"
    by (rule Number_str_digits)
  moreover have "\<not> isNaN (round_double (of_nat (dec_value (filter is_digit t))))"
    using round_double_not_NaN [of "of_nat (dec_value (filter is_digit t))"]
    by (simp add: isNaN_def split: number.splits)
  ultimately show ?thesis
    using assms by (simp add: parseMinutes_def Let_def filter_digit_toLowerCase)
qed

lemma parseMinutes_h_None:
  assumes "str_includes (toLowerCase t) ''h''" "\<not> digit_then_h (toLowerCase t)"
  shows "parseMinutes (Text t) = Num 0"
  using assms by (simp add: parseMinutes_def Let_def js_match_hm_None)

lemma parseMinutes_h_Some:
  assumes "str_includes (toLowerCase t) ''h''"
    and "js_match hm_regex (toLowerCase t) =
       Some [Some ds, let d2 = takeWhile is_digit w in if d2 = [] then None else Some d2]"
    and "\<forall>c \<in> set ds. is_digit c"
  shows "parseMinutes (Text t) = hm_minutes (dec_value ds) (dec_value (takeWhile is_digit w))"
proof -
  let ?m = "[Some ds, let d2 = takeWhile is_digit w in if d2 = [] then None else Some d2]"
  have g1: "group ?m 1 = Some ds" by (simp add: group_def)
  have g2: "group ?m 2 = (let d2 = takeWhile is_digit w in if d2 = [] then None else Some d2)"
    by (simp add: group_def)
  have "parseMinutes (Text t) = js_add (js_mul (Number_or_zero (group ?m 1)) (Num 60))
      (Number_or_zero (group ?m 2))"
    using assms(1,2) by (simp add: parseMinutes_def Let_def)
  then show ?thesis
    unfolding g1 g2 Number_or_zero_group2 Number_or_zero_digits [OF assms(3)] hm_minutes_def .
qed

lemma digit_then_h_iff:
  "digit_then_h s \<longleftrightarrow> (\<exists>a c b. s = a @ c # CHR ''h'' # b \<and> is_digit c)"
proof (induction s)
  case Nil
  show ?case by simp
next
  case (Cons x xs)
  show ?case
  proof (cases xs)
    case Nil
    have "\<not> (\<exists>a c b. [x] = a @ c # CHR ''h'' # b \<and> is_digit c)"
    proof
      assume "\<exists>a c b. [x] = a @ c # CHR ''h'' # b \<and> is_digit c"
      then obtain a c b where "[x] = a @ c # CHR ''h'' # b" by blast
      then have "length [x] = length (a @ c # CHR ''h'' # b)" by (rule arg_cong)
      then show False by simp
    qed
    then show ?thesis using Nil by simp
  next
    case (Cons y s')
    show ?thesis
    proof
      assume "digit_then_h (x # xs)"
      then consider "is_digit x \<and> y = CHR ''h''" | "digit_then_h xs"
        using Cons by auto
      then show "\<exists>a c b. x # xs = a @ c # CHR ''h'' # b \<and> is_digit c"
      proof cases
        case 1
        then have "x # xs = [] @ x # CHR ''h'' # s' \<and> is_digit x" using Cons by simp
        then show ?thesis by blast
      next
        case 2
        then obtain a c b where "xs = a @ c # CHR ''h'' # b" "is_digit c"
          using Cons.IH by blast
        then have "x # xs = (x # a) @ c # CHR ''h'' # b \<and> is_digit c" by simp
        then show ?thesis by blast
      qed
    next
      assume "\<exists>a c b. x # xs = a @ c # CHR ''h'' # b \<and> is_digit c"
      then obtain a c b where e: "x # xs = a @ c # CHR ''h'' # b" and c: "is_digit c"
        by blast
      show "digit_then_h (x # xs)"
      proof (cases a)
        case Nil
        then show ?thesis using e c by auto
      next
        case (Cons a0 a')
        then have "xs = a' @ c # CHR ''h'' # b" using e by simp
        then have "digit_then_h xs" using Cons.IH c by blast
        then show ?thesis by (rule digit_then_h_Cons)
      qed
    qed
  qed
qed

lemma hm_decomposition:
  "digit_then_h s \<Longrightarrow>
     \<exists>pre ds rest. s = pre @ ds @ CHR ''h'' # rest \<and> ds \<noteq> [] \<and> (\<forall>c \<in> set ds. is_digit c) \<and>
       (pre = [] \<or> \<not> is_digit (last pre)) \<and> \<not> digit_then_h pre"
proof (induction s)
  case Nil
  then show ?case by simp
next
  case (Cons x xs)
  show ?case
  proof (cases "hm_at (x # xs)")
    case (Some cs)
    then obtain d ys where "x # xs = d @ CHR ''h'' # ys" "d \<noteq> []" "\<forall>c \<in> set d. is_digit c"
      using hm_at_SomeD by blast
    then have "x # xs = [] @ d @ CHR ''h'' # ys \<and> d \<noteq> [] \<and> (\<forall>c \<in> set d. is_digit c) \<and>
       ([] = [] \<or> \<not> is_digit (last [])) \<and> \<not> digit_then_h []"
      by simp
    then show ?thesis by blast
  next
    case None
    have nxh: "\<not> (is_digit x \<and> (\<exists>ys. xs = CHR ''h'' # ys))"
    proof
      assume "is_digit x \<and> (\<exists>ys. xs = CHR ''h'' # ys)"
      then obtain ys where "is_digit x" "xs = CHR ''h'' # ys" by blast
      then have "hm_at (x # xs) \<noteq> None"
        using hm_at_run [of "[x]" ys] by simp
      then show False using None by simp
    qed
    have "digit_then_h xs"
      using Cons.prems nxh by (cases xs) auto
    then obtain pre ds rest where d: "xs = pre @ ds @ CHR ''h'' # rest" "ds \<noteq> []"
      "\<forall>c \<in> set ds. is_digit c" "pre = [] \<or> \<not> is_digit (last pre)" "\<not> digit_then_h pre"
      using Cons.IH by blast
    have l: "\<not> is_digit (last (x # pre))"
    proof (cases pre)
      case Nil
      have "\<not> is_digit x"
      proof
        assume "is_digit x"
        then have "hm_at ((x # ds) @ CHR ''h'' # rest) \<noteq> None"
          using hm_at_run [of "x # ds" rest] d(3) by simp
        then show False using None d(1) Nil by simp
      qed
      then show ?thesis using Nil by simp
    next
      case (Cons b p)
      then show ?thesis using d(4) by simp
    qed
    have n: "\<not> digit_then_h (x # pre)"
    proof (cases pre)
      case Nil
      then show ?thesis by simp
    next
      case (Cons b p)
      then have "\<not> (is_digit x \<and> b = CHR ''h'')" using nxh d(1) by auto
      then show ?thesis using d(5) Cons by simp
    qed
    have "x # xs = (x # pre) @ ds @ CHR ''h'' # rest" using d(1) by simp
    then show ?thesis using d(2,3) l n by blast
  qed
qed

lemma parseMinutes_h_decomp:
  assumes "str_includes (toLowerCase t) ''h''"
    and "toLowerCase t = pre @ ds @ CHR ''h'' # rest" "ds \<noteq> []" "\<forall>c \<in> set ds. is_digit c"
    and "pre = [] \<or> \<not> is_digit (last pre)" "\<not> digit_then_h pre"
  shows "parseMinutes (Text t) =
     hm_minutes (dec_value ds) (dec_value (takeWhile is_digit (dropWhile is_space rest)))"
proof -
  have js: "js_match hm_regex (toLowerCase t) =
      Some [Some ds, let d2 = takeWhile is_digit (dropWhile is_space rest)
                     in if d2 = [] then None else Some d2]"
    unfolding assms(2) using assms(3-6) by (rule js_match_hm_decomp)
  show ?thesis by (rule parseMinutes_h_Some [OF assms(1) js assms(4)])
qed

lemma parseMinutes_Text_cases:
  "is_minutes (parseMinutes (Text t)) \<or> parseMinutes (Text t) = PosInf"
proof (cases "str_includes (toLowerCase t) ''h''")
  case False
  show ?thesis
    unfolding parseMinutes_no_h [OF False] by (rule round_double_nat_cases)
next
  case h: True
  show ?thesis
  proof (cases "digit_then_h (toLowerCase t)")
    case False
    then have "parseMinutes (Text t) = Num (of_nat 0)"
      using h parseMinutes_h_None by simp
    then have "is_minutes (parseMinutes (Text t))" unfolding is_minutes_iff by blast
    then show ?thesis by (rule disjI1)
  next
    case True
    then obtain pre ds rest where d: "toLowerCase t = pre @ ds @ CHR ''h'' # rest" "ds \<noteq> []"
      "\<forall>c \<in> set ds. is_digit c" "pre = [] \<or> \<not> is_digit (last pre)" "\<not> digit_then_h pre"
      using hm_decomposition by blast
    show ?thesis
      unfolding parseMinutes_h_decomp [OF h d] by (rule hm_minutes_cases)
  qed
qed

lemma digit_then_h_has_digit: "digit_then_h s \<Longrightarrow> list_ex is_digit s"
  by (induction s rule: digit_then_h.induct) auto

lemma list_ex_digit_toLowerCase: "list_ex is_digit (toLowerCase t) \<longleftrightarrow> list_ex is_digit t"
  by (induction t) (auto simp: toLowerCase_def is_digit_toLowerChar)

lemma parseMinutes_no_digit:
  assumes "\<not> list_ex is_digit t"
  shows "parseMinutes (Text t) = Num 0"
proof (cases "str_includes (toLowerCase t) ''h''")
  case True
  have "\<not> digit_then_h (toLowerCase t)"
    using assms digit_then_h_has_digit list_ex_digit_toLowerCase by blast
  then show ?thesis using True by (rule parseMinutes_h_None [rotated])
next
  case False
  have "filter is_digit t = []" using assms by (simp add: list_ex_iff filter_empty_conv)
  then show ?thesis
    using parseMinutes_no_h [OF False] by (simp add: dec_value_def round_double_0)
qed

section \<open>The value of a digit string\<close>

text \<open>
  \<open>dec_value\<close> reads a digit string in base ten: the digit at index \<open>i\<close> counts
  \<open>10 ^ (length s - 1 - i)\<close> times.
\<close>

lemma dec_value_Nil: "dec_value [] = 0"
  by (simp add: dec_value_def)

lemma dec_value_snoc: "dec_value (s @ [c]) = 10 * dec_value s + digit_value c"
  by (simp add: dec_value_def)

lemma dec_value_positional:
  "dec_value s = (\<Sum>i < length s. digit_value (s ! i) * 10 ^ (length s - Suc i))"
proof (induction s rule: rev_induct)
  case Nil
  show ?case by (simp add: dec_value_Nil)
next
  case (snoc c s)
  have "(\<Sum>i < length s. digit_value ((s @ [c]) ! i) * 10 ^ (length (s @ [c]) - Suc i)) =
        (\<Sum>i < length s. 10 * (digit_value (s ! i) * 10 ^ (length s - Suc i)))"
  proof (rule sum.cong)
    fix i assume "i \<in> {..<length s}"
    then have i: "i < length s" by simp
    then have "length (s @ [c]) - Suc i = Suc (length s - Suc i)" by simp
    then show "digit_value ((s @ [c]) ! i) * 10 ^ (length (s @ [c]) - Suc i) =
        10 * (digit_value (s ! i) * 10 ^ (length s - Suc i))"
      using i by (simp add: nth_append)
  qed simp
  then show ?case
    by (simp add: dec_value_snoc snoc.IH sum_distrib_left)
qed

lemma digit_value_le: "is_digit c \<Longrightarrow> digit_value c \<le> 9"
  by (auto simp: is_digit_def digit_value_def Let_def)

lemma dec_value_bound: "\<forall>c \<in> set s. is_digit c \<Longrightarrow> dec_value s < 10 ^ length s"
proof (induction s rule: rev_induct)
  case Nil
  show ?case by (simp add: dec_value_Nil)
next
  case (snoc c s)
  then have "dec_value s < 10 ^ length s" by simp
  then have "Suc (dec_value s) \<le> 10 ^ length s" by simp
  then have "10 * Suc (dec_value s) \<le> 10 * 10 ^ length s" by (rule mult_le_mono2)
  moreover have "digit_value c \<le> 9" using snoc.prems by (simp add: digit_value_le)
  ultimately show ?case by (simp add: dec_value_snoc)
qed



section \<open>The function with its failure\<close>

lemma parseMinutes_run_ok: "parseMinutes_run v = Inr (parseMinutes v)"
proof (cases v)
  case (Text t)
  show ?thesis
  proof (cases "js_match hm_regex (toLowerCase t)")
    case None
    then show ?thesis
      unfolding Text by (simp add: parseMinutes_run_def parseMinutes_def Let_def)
  next
    case (Some m)
    then show ?thesis
      unfolding Text
      by (simp add: parseMinutes_run_def parseMinutes_def Let_def read_group_def)
  qed
qed (simp_all add: parseMinutes_run_def parseMinutes_def)

lemma timeChartData_run_ok: "timeChartData_run R = Inr (timeChartData R)"
  by (induction R) (simp_all add: parseMinutes_run_ok timeChartData_def)

lemma read_group_null: "read_group None i = Inl TypeError"
  by (simp add: read_group_def)

section \<open>Letters that differ in case\<close>

lemma capitals_iff:
  "c \<in> set capitals \<longleftrightarrow>
     (let n = (of_char c :: nat) in (65 \<le> n \<and> n \<le> 90) \<or> (192 \<le> n \<and> n \<le> 222 \<and> n \<noteq> 215))"
proof -
  have a: "c \<in> set ''ABCDEFGHIJKLMNOPQRSTUVWXYZ'' \<longleftrightarrow> (of_char c :: nat) \<in> {65 .. 90}"
  proof -
    have "c \<in> set ''ABCDEFGHIJKLMNOPQRSTUVWXYZ'' \<longleftrightarrow>
        (of_char c :: nat) \<in> of_char ` set ''ABCDEFGHIJKLMNOPQRSTUVWXYZ''"
      by (simp only: inj_image_mem_iff [OF inj_of_char])
    also have "(of_char ` set ''ABCDEFGHIJKLMNOPQRSTUVWXYZ'' :: nat set) = {65 .. 90}"
      by (auto simp: atLeastAtMost_def atLeast_def atMost_def) arith
    finally show ?thesis .
  qed
  have b: "c \<in> char_of ` (S :: nat set) \<longleftrightarrow> (of_char c :: nat) \<in> S" if "\<forall>n \<in> S. n < 256" for S
  proof
    assume "c \<in> char_of ` S"
    then obtain n where n: "n \<in> S" "c = char_of n" by blast
    then have "(of_char c :: nat) = n" using that by simp
    then show "(of_char c :: nat) \<in> S" using n by simp
  next
    assume "(of_char c :: nat) \<in> S"
    then have "char_of (of_char c :: nat) \<in> char_of ` S" by (rule imageI)
    then show "c \<in> char_of ` S" by simp
  qed
  have s: "set (map char_of ([192 ..< 215] @ [216 ..< 223 :: nat])) =
      char_of ` ({192 ..< 215} \<union> {216 ..< 223 :: nat})"
    by (simp only: set_map set_append set_upt)
  have r: "\<forall>n \<in> {192 ..< 215} \<union> {216 ..< 223}. n < (256::nat)"
    by auto
  have l: "c \<in> set (map char_of ([192 ..< 215] @ [216 ..< 223 :: nat])) \<longleftrightarrow>
      (of_char c :: nat) \<in> {192 ..< 215} \<union> {216 ..< 223}"
    unfolding s by (rule b [OF r])
  have "c \<in> set capitals \<longleftrightarrow>
      c \<in> set ''ABCDEFGHIJKLMNOPQRSTUVWXYZ'' \<or>
      c \<in> set (map char_of ([192 ..< 215] @ [216 ..< 223 :: nat]))"
    by (simp only: capitals_def set_append Un_iff)
  also have "\<dots> \<longleftrightarrow>
      (of_char c :: nat) \<in> {65 .. 90} \<or> (of_char c :: nat) \<in> {192 ..< 215} \<union> {216 ..< 223}"
    by (simp only: a l)
  also have "\<dots> \<longleftrightarrow>
      (let n = (of_char c :: nat) in (65 \<le> n \<and> n \<le> 90) \<or> (192 \<le> n \<and> n \<le> 222 \<and> n \<noteq> 215))"
    by (auto simp: Let_def)
  finally show ?thesis .
qed

lemma same_letter_iff: "same_letter a b \<longleftrightarrow> toLowerChar a = toLowerChar b"
proof -
  have "toLowerChar a = toLowerChar b \<longleftrightarrow>
      (of_char (toLowerChar a) :: nat) = of_char (toLowerChar b)"
    by (simp only: of_char_eq_iff)
  moreover have "a = b \<longleftrightarrow> (of_char a :: nat) = of_char b"
    by (simp only: of_char_eq_iff)
  ultimately show ?thesis
    unfolding same_letter_def capitals_iff of_char_toLowerChar Let_def by auto
qed

lemma map_eq_list_all2: "map f m = map f t \<longleftrightarrow> list_all2 (\<lambda>a b. f a = f b) m t"
proof (induction m arbitrary: t)
  case Nil
  show ?case by simp
next
  case (Cons x m)
  show ?case by (cases t) (simp_all add: Cons.IH)
qed

lemma toLowerCase_eq_iff: "toLowerCase m = toLowerCase t \<longleftrightarrow> list_all2 same_letter m t"
  unfolding toLowerCase_def map_eq_list_all2 by (simp only: same_letter_iff [abs_def])

section \<open>The duration normalizer on concrete texts\<close>

lemma parseMinutes_digits_value:
  assumes "CHR ''h'' \<notin> set t \<and> CHR ''H'' \<notin> set t" "dec_value (filter is_digit t) = n"
  shows "parseMinutes (Text t) = round_double (of_nat n)"
proof -
  have "\<not> str_includes (toLowerCase t) ''h''"
    using assms(1) by (simp only: includes_h_iff) blast
  then have "parseMinutes (Text t) = round_double (of_nat (dec_value (filter is_digit t)))"
    by (rule parseMinutes_no_h)
  then show ?thesis unfolding assms(2) .
qed

lemma parseMinutes_hm_value:
  assumes "toLowerCase t = pre @ ds @ CHR ''h'' # rest" "ds \<noteq> []" "list_all is_digit ds"
    and "pre = [] \<or> \<not> is_digit (last pre)" "\<not> digit_then_h pre"
  shows "parseMinutes (Text t) =
     hm_minutes (dec_value ds) (dec_value (takeWhile is_digit (dropWhile is_space rest)))"
proof -
  have "CHR ''h'' \<in> set (toLowerCase t)" unfolding assms(1) by simp
  then have h: "str_includes (toLowerCase t) ''h''" by (simp only: str_includes_single)
  have d: "\<forall>c \<in> set ds. is_digit c" using assms(3) by (simp add: list_all_iff)
  show ?thesis by (rule parseMinutes_h_decomp [OF h assms(1,2) d assms(4,5)])
qed






lemma parseMinutes_examples_digits:
  "parseMinutes (Text ''45 min'') = Num 45"
  "parseMinutes (Text ''abc'') = Num 0"
  "parseMinutes (Text []) = Num 0"
proof -
  have "parseMinutes (Text ''45 min'') = round_double (of_nat 45)"
    by (rule parseMinutes_digits_value) (simp_all add: is_digit_def dec_value_def digit_value_def)
  also have "\<dots> = Num (of_nat 45)" by (rule round_double_nat_exact) simp
  finally show "parseMinutes (Text ''45 min'') = Num 45" by simp
  show "parseMinutes (Text ''abc'') = Num 0"
    by (rule parseMinutes_no_digit) (simp add: is_digit_def)
  show "parseMinutes (Text []) = Num 0"
    by (rule parseMinutes_no_digit) simp
qed

text \<open>
  Three roundings by hand: a tenth, which no double is, and the two ties that the
  program meets just above \<open>2 ^ 53\<close>, where the doubles are the even numbers.
\<close>

lemma round_double_tenth: "round_double (1 / 10) = Num (3602879701896397 / 2 ^ 55)"
  by code_simp

lemma round_double_tie_below: "round_double 9007199254740993 = Num 9007199254740992"
  by code_simp


section \<open>Digits beyond the doubles\<close>






section \<open>The duration normalizer on its inputs\<close>




text \<open>
  Claim C7, as stated, reads the digits of a text without \<open>h\<close> as an integer.  The
  program reads them as a double: 9007199254740993 is \<open>2 ^ 53 + 1\<close>, which no double
  is, and the result is 9007199254740992.
\<close>

theorem C7_rounded_digits_counterexample:
  "dec_value (filter is_digit ''9007199254740993'') = 9007199254740993 \<and>
   parseMinutes (Text ''9007199254740993'') = Num 9007199254740992 \<and>
   parseMinutes (Text ''9007199254740993'') \<noteq> Num 9007199254740993"
proof -
  have d: "dec_value (filter is_digit ''9007199254740993'') = 9007199254740993"
    by (simp add: is_digit_def dec_value_def digit_value_def)
  have "parseMinutes (Text ''9007199254740993'') = round_double (of_nat 9007199254740993)"
    by (rule parseMinutes_digits_value [OF _ d]) simp
  also have "\<dots> = Num 9007199254740992"
    using round_double_tie_below by simp
  finally have r: "parseMinutes (Text ''9007199254740993'') = Num 9007199254740992" .
  show ?thesis unfolding r using d by simp
qed

text \<open>
  Claim C7, amended.  The result for \<open>null\<close> and for \<open>undefined\<close> is 0.  For a text
  without the letter \<open>h\<close> in either case, the result is the double nearest to the value
  of the digits of the text, read in their order as one decimal number: that value
  itself whenever it is below \<open>2 ^ 53\<close>, which it is when the text has at most 15
  digits, and 0 when the text has no digit.  In particular the results for \<open>45 min\<close>,
  \<open>abc\<close> and the empty text are 45, 0 and 0.
\<close>

theorem C7_absent_and_digit_text:
  "parseMinutes Null = Num 0 \<and> parseMinutes Undefined = Num 0 \<and>
   (CHR ''h'' \<notin> set t \<and> CHR ''H'' \<notin> set t \<longrightarrow>
      parseMinutes (Text t) = round_double (of_nat (dec_value (filter is_digit t))) \<and>
      (dec_value (filter is_digit t) < 2 ^ 53 \<longrightarrow>
         parseMinutes (Text t) = Num (of_nat (dec_value (filter is_digit t)))) \<and>
      (length (filter is_digit t) \<le> 15 \<longrightarrow>
         parseMinutes (Text t) = Num (of_nat (dec_value (filter is_digit t)))) \<and>
      (filter is_digit t = [] \<longrightarrow> parseMinutes (Text t) = Num 0)) \<and>
   parseMinutes (Text ''45 min'') = Num 45 \<and>
   parseMinutes (Text ''abc'') = Num 0 \<and>
   parseMinutes (Text []) = Num 0"
proof -
  have 1: "parseMinutes Null = Num 0" "parseMinutes Undefined = Num 0"
    by (simp_all add: parseMinutes_def)
  have 2: "CHR ''h'' \<notin> set t \<and> CHR ''H'' \<notin> set t \<longrightarrow>
      parseMinutes (Text t) = round_double (of_nat (dec_value (filter is_digit t))) \<and>
      (dec_value (filter is_digit t) < 2 ^ 53 \<longrightarrow>
         parseMinutes (Text t) = Num (of_nat (dec_value (filter is_digit t)))) \<and>
      (length (filter is_digit t) \<le> 15 \<longrightarrow>
         parseMinutes (Text t) = Num (of_nat (dec_value (filter is_digit t)))) \<and>
      (filter is_digit t = [] \<longrightarrow> parseMinutes (Text t) = Num 0)"
  proof
    assume a: "CHR ''h'' \<notin> set t \<and> CHR ''H'' \<notin> set t"
    let ?d = "filter is_digit t"
    have v: "parseMinutes (Text t) = round_double (of_nat (dec_value ?d))"
      by (rule parseMinutes_digits_value [OF a refl])
    have e: "dec_value ?d < 2 ^ 53 \<Longrightarrow> round_double (of_nat (dec_value ?d)) = Num (of_nat (dec_value ?d))"
      by (rule round_double_nat_exact)
    have b: "dec_value ?d < 2 ^ 53" if "length ?d \<le> 15"
    proof -
      have "dec_value ?d < 10 ^ length ?d" by (rule dec_value_bound) simp
      moreover have "(10::nat) ^ length ?d \<le> 10 ^ 15" using that by (rule power_increasing) simp
      ultimately show ?thesis by simp
    qed
    have z: "filter is_digit t = [] \<Longrightarrow> round_double (of_nat (dec_value ?d)) = Num 0"
      by (simp add: dec_value_Nil round_double_0)
    show "parseMinutes (Text t) = round_double (of_nat (dec_value ?d)) \<and>
      (dec_value ?d < 2 ^ 53 \<longrightarrow> parseMinutes (Text t) = Num (of_nat (dec_value ?d))) \<and>
      (length ?d \<le> 15 \<longrightarrow> parseMinutes (Text t) = Num (of_nat (dec_value ?d))) \<and>
      (?d = [] \<longrightarrow> parseMinutes (Text t) = Num 0)"
      unfolding v using e b z by blast
  qed
  show ?thesis using 1 2 parseMinutes_examples_digits by (intro conjI)
qed

theorem C7_absent_and_digit_text_witness:
  "CHR ''h'' \<notin> set ''7 min, 05 s'' \<and> CHR ''H'' \<notin> set ''7 min, 05 s'' \<and>
   length (filter is_digit ''7 min, 05 s'') \<le> 15 \<and>
   parseMinutes (Text ''7 min, 05 s'') = Num 705 \<and>
   CHR ''h'' \<notin> set ''n/a'' \<and> CHR ''H'' \<notin> set ''n/a'' \<and> filter is_digit ''n/a'' = [] \<and>
   parseMinutes (Text ''n/a'') = Num 0"
proof -
  have a: "CHR ''h'' \<notin> set ''7 min, 05 s'' \<and> CHR ''H'' \<notin> set ''7 min, 05 s''"
    by simp
  have b: "CHR ''h'' \<notin> set ''n/a'' \<and> CHR ''H'' \<notin> set ''n/a''"
    by simp
  have e: "filter is_digit ''n/a'' = []"
    by (simp add: is_digit_def)
  have l: "length (filter is_digit ''7 min, 05 s'') \<le> 15"
    by (simp add: is_digit_def)
  have v: "dec_value (filter is_digit ''7 min, 05 s'') = 705"
    by (simp add: is_digit_def dec_value_def digit_value_def)
  have "parseMinutes (Text ''7 min, 05 s'') = Num (of_nat (dec_value (filter is_digit ''7 min, 05 s'')))"
    using C7_absent_and_digit_text [of "''7 min, 05 s''", THEN conjunct2, THEN conjunct2,
        THEN conjunct1, rule_format, OF a, THEN conjunct2, THEN conjunct2, THEN conjunct1,
        rule_format, OF l] .
  then have r1: "parseMinutes (Text ''7 min, 05 s'') = Num 705"
    unfolding v by simp
  have r2: "parseMinutes (Text ''n/a'') = Num 0"
    using C7_absent_and_digit_text [of "''n/a''", THEN conjunct2, THEN conjunct2,
        THEN conjunct1, rule_format, OF b, THEN conjunct2, THEN conjunct2, THEN conjunct2,
        rule_format, OF e] .
  show ?thesis using a b e l r1 r2 by (intro conjI) simp_all
qed




text \<open>
  Claim C2.  The function with its failure never fails: for every input
  \<open>parseMinutes_run\<close> returns a value, the one \<open>parseMinutes\<close> gives, because the
  \<open>null\<close> of a failed match is tested for before a group is read; and the map over any
  record list returns its points.  The values are: 0 for \<open>null\<close> and \<open>undefined\<close>; the
  number itself for a number; for a text never \<open>NaN\<close>, and 0 when the text has no digit
  or has an \<open>h\<close> that the pattern does not match.  For every record list the chart gets
  its three values and one point for each record, and no point is \<open>NaN\<close> unless a record
  carries the number \<open>NaN\<close> itself.
\<close>

theorem C2_total_zero_on_unparseable:
  "parseMinutes_run v = Inr (parseMinutes v) \<and>
   timeChartData_run R = Inr (timeChartData R) \<and>
   parseMinutes_run Null = Inr (Num 0) \<and> parseMinutes_run Undefined = Inr (Num 0) \<and>
   parseMinutes_run (Numeric n) = Inr n \<and>
   parseMinutes_run (Text t) \<noteq> Inr NaN \<and>
   (\<not> list_ex is_digit t \<longrightarrow> parseMinutes_run (Text t) = Inr (Num 0)) \<and>
   ((CHR ''h'' \<in> set t \<or> CHR ''H'' \<in> set t) \<and> \<not> digit_then_h (toLowerCase t) \<longrightarrow>
      js_match hm_regex (toLowerCase t) = None \<and> parseMinutes_run (Text t) = Inr (Num 0)) \<and>
   length (statusChartData R) = 3 \<and>
   length (timeChartData R) = length R \<and>
   ((\<forall>r \<in> set R. time_spent r \<noteq> Numeric NaN) \<longrightarrow>
      (\<forall>p \<in> set (timeChartData R). minutes p \<noteq> NaN))"
proof -
  have 0: "parseMinutes_run v = Inr (parseMinutes v)"
    "timeChartData_run R = Inr (timeChartData R)"
    by (rule parseMinutes_run_ok, rule timeChartData_run_ok)
  have 1: "parseMinutes_run Null = Inr (Num 0)" "parseMinutes_run Undefined = Inr (Num 0)"
    "parseMinutes_run (Numeric n) = Inr n"
    by (simp_all add: parseMinutes_run_def)
  have nan: "parseMinutes (Text u) \<noteq> NaN" for u
    using parseMinutes_Text_cases [of u] by (auto simp: is_minutes_def)
  have 2: "parseMinutes_run (Text t) \<noteq> Inr NaN"
    unfolding parseMinutes_run_ok using nan [of t] by simp
  have 3: "\<not> list_ex is_digit t \<longrightarrow> parseMinutes_run (Text t) = Inr (Num 0)"
    unfolding parseMinutes_run_ok using parseMinutes_no_digit by simp
  have 4: "(CHR ''h'' \<in> set t \<or> CHR ''H'' \<in> set t) \<and> \<not> digit_then_h (toLowerCase t) \<longrightarrow>
      js_match hm_regex (toLowerCase t) = None \<and> parseMinutes_run (Text t) = Inr (Num 0)"
    unfolding parseMinutes_run_ok
    using parseMinutes_h_None js_match_hm_None by (simp add: includes_h_iff)
  have 5: "length (statusChartData R) = 3" "length (timeChartData R) = length R"
    by (simp_all add: statusChartData_def timeChartData_def Let_def)
  have 6: "(\<forall>r \<in> set R. time_spent r \<noteq> Numeric NaN) \<longrightarrow>
      (\<forall>p \<in> set (timeChartData R). minutes p \<noteq> NaN)"
  proof (intro impI ballI)
    fix p
    assume a: "\<forall>r \<in> set R. time_spent r \<noteq> Numeric NaN" and "p \<in> set (timeChartData R)"
    then obtain r where r: "r \<in> set R" "minutes p = parseMinutes (time_spent r)"
      by (auto simp: timeChartData_def)
    show "minutes p \<noteq> NaN"
    proof (cases "time_spent r")
      case Null
      then show ?thesis using r by (simp add: parseMinutes_def)
    next
      case Undefined
      then show ?thesis using r by (simp add: parseMinutes_def)
    next
      case (Numeric m)
      then have "m \<noteq> NaN" using a r(1) by auto
      then show ?thesis using r Numeric by (simp add: parseMinutes_def)
    next
      case (Text u)
      then show ?thesis using r nan by simp
    qed
  qed
  show ?thesis using 0 1 2 3 4 5 6 by (intro conjI)
qed

theorem C2_total_zero_on_unparseable_witness:
  "\<not> list_ex is_digit ''soon'' \<and> parseMinutes_run (Text ''soon'') = Inr (Num 0) \<and>
   (CHR ''h'' \<in> set ''5 Hours'' \<or> CHR ''H'' \<in> set ''5 Hours'') \<and>
   \<not> digit_then_h (toLowerCase ''5 Hours'') \<and>
   js_match hm_regex (toLowerCase ''5 Hours'') = None \<and>
   read_group (js_match hm_regex (toLowerCase ''5 Hours'')) 1 = Inl TypeError \<and>
   parseMinutes_run (Text ''5 Hours'') = Inr (Num 0) \<and>
   list_all (\<lambda>r. time_spent r \<noteq> Numeric NaN) [ann, bo, late] \<and>
   list_all (\<lambda>p. minutes p \<noteq> NaN) (timeChartData [ann, bo, late]) \<and>
   timeChartData_run [ann, bo, late] = Inr (timeChartData [ann, bo, late])"
proof -
  have a: "\<not> list_ex is_digit ''soon''"
    by (simp add: is_digit_def)
  have b: "(CHR ''h'' \<in> set ''5 Hours'' \<or> CHR ''H'' \<in> set ''5 Hours'') \<and>
      \<not> digit_then_h (toLowerCase ''5 Hours'')"
    by code_simp
  have c: "\<forall>r \<in> set [ann, bo, late]. time_spent r \<noteq> Numeric NaN"
    by (simp add: ann_def bo_def late_def)
  have r1: "parseMinutes_run (Text ''soon'') = Inr (Num 0)"
    using C2_total_zero_on_unparseable [of _ _ _ "''soon''", THEN conjunct2, THEN conjunct2,
        THEN conjunct2, THEN conjunct2, THEN conjunct2, THEN conjunct2, THEN conjunct1,
        rule_format, OF a] .
  have r2: "js_match hm_regex (toLowerCase ''5 Hours'') = None \<and>
      parseMinutes_run (Text ''5 Hours'') = Inr (Num 0)"
    using C2_total_zero_on_unparseable [of _ _ _ "''5 Hours''", THEN conjunct2, THEN conjunct2,
        THEN conjunct2, THEN conjunct2, THEN conjunct2, THEN conjunct2, THEN conjunct2,
        THEN conjunct1, rule_format, OF b] .
  have g: "read_group (js_match hm_regex (toLowerCase ''5 Hours'')) 1 = Inl TypeError"
    using r2 by (simp add: read_group_def)
  have r3: "\<forall>p \<in> set (timeChartData [ann, bo, late]). minutes p \<noteq> NaN"
    using C2_total_zero_on_unparseable [of _ "[ann, bo, late]", THEN conjunct2, THEN conjunct2,
        THEN conjunct2, THEN conjunct2, THEN conjunct2, THEN conjunct2, THEN conjunct2,
        THEN conjunct2, THEN conjunct2, THEN conjunct2, THEN mp, OF c] .
  have r4: "timeChartData_run [ann, bo, late] = Inr (timeChartData [ann, bo, late])"
    using C2_total_zero_on_unparseable [of _ "[ann, bo, late]", THEN conjunct2, THEN conjunct1] .
  show ?thesis using a b c r1 r2 g r3 r4 by (intro conjI) (simp_all add: list_all_iff)
qed

section \<open>The counters\<close>

lemma foldl_count_row:
  "foldl count_row acc rs =
     \<lparr>checkedIn = checkedIn acc + length (filter (\<lambda>r. status r = ''checked_in'') rs),
      checkedOut = checkedOut acc + length (filter (\<lambda>r. status r = ''checked_out'') rs),
      notified = notified acc + length (filter parent_notified rs)\<rparr>"
proof (induction rs arbitrary: acc)
  case Nil
  show ?case by simp
next
  case (Cons r rs)
  show ?case
    unfolding foldl_Cons Cons.IH by (simp add: count_row_def Let_def)
qed

lemma status_counts_filter:
  "status_counts rs =
     \<lparr>checkedIn = length (filter (\<lambda>r. status r = ''checked_in'') rs),
      checkedOut = length (filter (\<lambda>r. status r = ''checked_out'') rs),
      notified = length (filter parent_notified rs)\<rparr>"
  by (simp add: status_counts_def foldl_count_row)

lemma length_two_filters:
  "(\<And>x. \<not> (P x \<and> Q x)) \<Longrightarrow> length (filter P xs) + length (filter Q xs) \<le> length xs"
  by (induction xs) auto

text \<open>
  Claim C4.  For every record sequence \<open>R\<close>, the checked-in counter plus the checked-out
  counter of the summary is at most the length of \<open>R\<close>; the same holds of the two values
  handed to the chart.
\<close>

theorem C4_status_counters_bounded:
  "checkedIn (status_counts R) + checkedOut (status_counts R) \<le> length R \<and>
   snd (statusChartData R ! 0) + snd (statusChartData R ! 1) \<le> length R"
proof -
  have "length (filter (\<lambda>r. status r = ''checked_in'') R)
        + length (filter (\<lambda>r. status r = ''checked_out'') R) \<le> length R"
    by (rule length_two_filters) auto
  then show ?thesis by (simp add: statusChartData_def status_counts_filter)
qed

theorem C4_status_counters_bounded_witness:
  "checkedIn (status_counts [ann, bo, late]) + checkedOut (status_counts [ann, bo, late]) \<le> 3"
  using C4_status_counters_bounded [of "[ann, bo, late]"] by simp

text \<open>
  Claim C6.  The counters move independently.  A record with status \<open>checked_in\<close> and
  \<open>parent_notified\<close> true adds one to the checked-in counter and one to the notified
  counter.  A record whose status is neither \<open>checked_in\<close> nor \<open>checked_out\<close> leaves both
  status counters as they are, adds one to the notified counter exactly when
  \<open>parent_notified\<close> is true, and has its duration point in the series at its place.
  The record may stand anywhere in the sequence.
\<close>

theorem C6_counters_independent:
  "(status r = ''checked_in'' \<and> parent_notified r \<longrightarrow>
      checkedIn (status_counts (xs @ r # ys)) = checkedIn (status_counts (xs @ ys)) + 1 \<and>
      notified (status_counts (xs @ r # ys)) = notified (status_counts (xs @ ys)) + 1) \<and>
   (status r \<noteq> ''checked_in'' \<and> status r \<noteq> ''checked_out'' \<longrightarrow>
      checkedIn (status_counts (xs @ r # ys)) = checkedIn (status_counts (xs @ ys)) \<and>
      checkedOut (status_counts (xs @ r # ys)) = checkedOut (status_counts (xs @ ys)) \<and>
      notified (status_counts (xs @ r # ys)) =
        notified (status_counts (xs @ ys)) + (if parent_notified r then 1 else 0) \<and>
      timeChartData (xs @ r # ys) =
        timeChartData xs @
          \<lparr>name = student_name r, minutes = parseMinutes (time_spent r)\<rparr> # timeChartData ys)"
  by (simp add: status_counts_filter timeChartData_def)

theorem C6_counters_independent_witness:
  "status ann = ''checked_in'' \<and> parent_notified ann \<and>
   checkedIn (status_counts ([bo] @ ann # [late])) = checkedIn (status_counts ([bo] @ [late])) + 1 \<and>
   notified (status_counts ([bo] @ ann # [late])) = notified (status_counts ([bo] @ [late])) + 1 \<and>
   status late \<noteq> ''checked_in'' \<and> status late \<noteq> ''checked_out'' \<and> parent_notified late \<and>
   checkedIn (status_counts ([ann] @ late # [bo])) = checkedIn (status_counts ([ann] @ [bo])) \<and>
   checkedOut (status_counts ([ann] @ late # [bo])) = checkedOut (status_counts ([ann] @ [bo])) \<and>
   notified (status_counts ([ann] @ late # [bo])) = notified (status_counts ([ann] @ [bo])) + 1 \<and>
   length (timeChartData ([ann] @ late # [bo])) = 3"
proof -
  have a: "status ann = ''checked_in'' \<and> parent_notified ann"
    by (simp add: ann_def)
  have l: "status late \<noteq> ''checked_in'' \<and> status late \<noteq> ''checked_out''" and n: "parent_notified late"
    by (simp_all add: late_def)
  show ?thesis
    using a l n C6_counters_independent [of ann "[bo]" "[late]"]
      C6_counters_independent [of late "[ann]" "[bo]"]
    by (simp add: timeChartData_def)
qed

text \<open>
  The scenario of the two records, end to end: the chart values are 1, 1 and 1, and the
  points are 75 minutes for Ann and 30 minutes for Bo.
\<close>

lemma scenario_end_to_end:
  "statusChartData [ann, bo] = [(''Checked In'', 1), (''Checked Out'', 1), (''Notified'', 1)] \<and>
   timeChartData [ann, bo] =
     [\<lparr>name = ''Ann'', minutes = Num 75\<rparr>, \<lparr>name = ''Bo'', minutes = Num 30\<rparr>]"
proof -
  have c: "status_counts [ann, bo] = \<lparr>checkedIn = 1, checkedOut = 1, notified = 1\<rparr>"
    by (simp add: status_counts_filter ann_def bo_def)
  have l: "toLowerCase ''1h 15m'' = [] @ ''1'' @ CHR ''h'' # '' 15m''"
    by code_simp
  have "parseMinutes (Text ''1h 15m'') =
      hm_minutes (dec_value ''1'') (dec_value (takeWhile is_digit (dropWhile is_space '' 15m'')))"
    by (rule parseMinutes_hm_value [OF l]) (simp_all add: is_digit_def)
  also have "\<dots> = hm_minutes 1 15"
    by (simp add: is_digit_def is_space_def dec_value_def digit_value_def)
  also have "\<dots> = Num (of_nat (1 * 60 + 15))" by (rule hm_minutes_exact) simp
  finally have a: "parseMinutes (Text ''1h 15m'') = Num 75" by simp
  have b: "parseMinutes (Numeric (Num 30)) = Num 30"
    by (simp add: parseMinutes_def)
  have t: "timeChartData [ann, bo] =
      [\<lparr>name = ''Ann'', minutes = Num 75\<rparr>, \<lparr>name = ''Bo'', minutes = Num 30\<rparr>]"
    by (simp add: timeChartData_def ann_def bo_def a b)
  show ?thesis
    unfolding statusChartData_def c t by simp
qed

text \<open>
  Claim C9.  The empty record sequence gives a summary with all three counters 0, the
  three chart values 0, and the empty sequence of duration points.
\<close>

theorem C9_empty_input:
  "status_counts [] = \<lparr>checkedIn = 0, checkedOut = 0, notified = 0\<rparr> \<and>
   statusChartData [] = [(''Checked In'', 0), (''Checked Out'', 0), (''Notified'', 0)] \<and>
   timeChartData [] = []"
  by (simp add: status_counts_def statusChartData_def timeChartData_def)

section \<open>The duration series\<close>

text \<open>
  Claim C5.  For every record sequence \<open>R\<close> the series has one point for each record, in
  the order of the records: the point at index \<open>i\<close> carries the student name of record
  \<open>i\<close> as it is and \<open>parseMinutes\<close> of its \<open>time_spent\<close>.  Records of one student keep
  their own points.
\<close>

theorem C5_one_point_per_record:
  "length (timeChartData R) = length R \<and>
   (\<forall>i < length R. name (timeChartData R ! i) = student_name (R ! i) \<and>
       minutes (timeChartData R ! i) = parseMinutes (time_spent (R ! i)))"
  by (simp add: timeChartData_def)

theorem C5_one_point_per_record_witness:
  "length (timeChartData [ann, bo, late]) = 3 \<and>
   name (timeChartData [ann, bo, late] ! 0) = ''Ann'' \<and>
   name (timeChartData [ann, bo, late] ! 2) = ''Ann'' \<and>
   minutes (timeChartData [ann, bo, late] ! 1) = parseMinutes (Numeric (Num 30))"
proof -
  have "(0::nat) < length [ann, bo, late]" "(1::nat) < length [ann, bo, late]"
    "(2::nat) < length [ann, bo, late]"
    by simp_all
  then show ?thesis
    using C5_one_point_per_record [of "[ann, bo, late]"]
    by (simp add: ann_def bo_def late_def)
qed

section \<open>The record filter\<close>

lemma str_includes_empty: "str_includes s []"
  by (induction s) auto

lemma str_includes_iff: "str_includes s t \<longleftrightarrow> (\<exists>p q. s = p @ t @ q)"
proof (induction s)
  case Nil
  show ?case by auto
next
  case (Cons x xs)
  show ?case
  proof
    assume "str_includes (x # xs) t"
    then consider "take (length t) (x # xs) = t" | "str_includes xs t" by auto
    then show "\<exists>p q. x # xs = p @ t @ q"
    proof cases
      case 1
      then have "x # xs = [] @ t @ drop (length t) (x # xs)"
        by (metis append_Nil append_take_drop_id)
      then show ?thesis by blast
    next
      case 2
      then obtain p q where "xs = p @ t @ q" using Cons.IH by blast
      then have "x # xs = (x # p) @ t @ q" by simp
      then show ?thesis by blast
    qed
  next
    assume "\<exists>p q. x # xs = p @ t @ q"
    then obtain p q where pq: "x # xs = p @ t @ q" by blast
    show "str_includes (x # xs) t"
    proof (cases p)
      case Nil
      then have "take (length t) (x # xs) = t" using pq by simp
      then show ?thesis by simp
    next
      case (Cons y p')
      then have "xs = p' @ t @ q" using pq by simp
      then have "str_includes xs t" using Cons.IH by blast
      then show ?thesis by simp
    qed
  qed
qed

lemma map_eq_append3:
  "(\<exists>p q. map f s = p @ map f t @ q) \<longleftrightarrow> (\<exists>p m q. s = p @ m @ q \<and> map f m = map f t)"
proof
  assume "\<exists>p q. map f s = p @ map f t @ q"
  then obtain p q where "map f s = p @ map f t @ q" by blast
  then have "\<exists>p' r. s = p' @ r \<and> p = map f p' \<and> map f t @ q = map f r"
    by (simp only: map_eq_append_conv)
  then obtain p' r where 1: "s = p' @ r" "p = map f p'" "map f t @ q = map f r"
    by blast
  from 1(3) have "\<exists>m q'. r = m @ q' \<and> map f t = map f m \<and> q = map f q'"
    by (simp only: append_eq_map_conv)
  then obtain m q' where 2: "r = m @ q'" "map f t = map f m" "q = map f q'"
    by blast
  have "s = p' @ m @ q' \<and> map f m = map f t" using 1(1) 2(1) 2(2) by simp
  then show "\<exists>p m q. s = p @ m @ q \<and> map f m = map f t"
    by blast
next
  assume "\<exists>p m q. s = p @ m @ q \<and> map f m = map f t"
  then obtain p m q where "s = p @ m @ q" "map f m = map f t" by blast
  then have "map f s = map f p @ map f t @ map f q" by simp
  then show "\<exists>p q. map f s = p @ map f t @ q" by blast
qed

lemma matchesSearch_iff:
  "str_includes (toLowerCase s) (toLowerCase t) \<longleftrightarrow>
     (\<exists>p m q. s = p @ m @ q \<and> toLowerCase m = toLowerCase t)"
  unfolding str_includes_iff toLowerCase_def by (rule map_eq_append3)

text \<open>
  Claim C8.  With the notification filter at one of its three values, the filter keeps,
  in their order, exactly the records that satisfy all three predicates: some stretch of
  the student name equals the search text letter by letter, where a capital letter and
  its small letter count as equal; the status filter is \<open>all\<close> or the status of the
  record equals it; and the notification filter \<open>yes\<close> requires \<open>parent_notified\<close> true,
  \<open>no\<close> requires it false, \<open>all\<close> requires nothing.  In the scenario of the two
  records, filtering by \<open>yes\<close> keeps only the record of Ann; and the search text \<open>aN\<close>
  finds both records named \<open>Ann\<close>.
\<close>

theorem C8_filter_three_predicates:
  assumes "nf = ''all'' \<or> nf = ''yes'' \<or> nf = ''no''"
  shows "filteredCurrentRecords rs search sf nf =
     filter (\<lambda>r. (\<exists>p m q. student_name r = p @ m @ q \<and> list_all2 same_letter m search) \<and>
                 (sf = ''all'' \<or> status r = sf) \<and>
                 (nf = ''yes'' \<longrightarrow> parent_notified r) \<and>
                 (nf = ''no'' \<longrightarrow> \<not> parent_notified r)) rs
     \<and> filteredCurrentRecords [ann, bo] [] ''all'' ''yes'' = [ann]
     \<and> filteredCurrentRecords [ann, bo, late] ''aN'' ''all'' ''all'' = [ann, late]"
proof -
  have "matches_row search sf nf r \<longleftrightarrow>
        ((\<exists>p m q. student_name r = p @ m @ q \<and> list_all2 same_letter m search) \<and>
                 (sf = ''all'' \<or> status r = sf) \<and>
                 (nf = ''yes'' \<longrightarrow> parent_notified r) \<and>
                 (nf = ''no'' \<longrightarrow> \<not> parent_notified r))" for r
    using assms by (auto simp: matches_row_def matchesSearch_iff toLowerCase_eq_iff)
  then have "matches_row search sf nf =
        (\<lambda>r. (\<exists>p m q. student_name r = p @ m @ q \<and> list_all2 same_letter m search) \<and>
                 (sf = ''all'' \<or> status r = sf) \<and>
                 (nf = ''yes'' \<longrightarrow> parent_notified r) \<and>
                 (nf = ''no'' \<longrightarrow> \<not> parent_notified r))"
    by (rule ext)
  then have 1: "filteredCurrentRecords rs search sf nf =
     filter (\<lambda>r. (\<exists>p m q. student_name r = p @ m @ q \<and> list_all2 same_letter m search) \<and>
                 (sf = ''all'' \<or> status r = sf) \<and>
                 (nf = ''yes'' \<longrightarrow> parent_notified r) \<and>
                 (nf = ''no'' \<longrightarrow> \<not> parent_notified r)) rs"
    unfolding filteredCurrentRecords_def by (rule arg_cong [where f = "\<lambda>P. filter P rs"])
  have 2: "filteredCurrentRecords [ann, bo] [] ''all'' ''yes'' = [ann]"
    by (simp add: filteredCurrentRecords_def matches_row_def toLowerCase_def
        str_includes_empty ann_def bo_def)
  have 3: "filteredCurrentRecords [ann, bo, late] ''aN'' ''all'' ''all'' = [ann, late]"
    by code_simp
  show ?thesis using 1 2 3 by (intro conjI)
qed

theorem C8_filter_three_predicates_witness:
  "(''yes'' = ''all'' \<or> ''yes'' = ''yes'' \<or> ''yes'' = ''no'') \<and>
   filter (\<lambda>r. (\<exists>p m q. student_name r = p @ m @ q \<and> list_all2 same_letter m ''NN'') \<and>
                 (''late'' = ''all'' \<or> status r = ''late'') \<and>
                 (''yes'' = ''yes'' \<longrightarrow> parent_notified r) \<and>
                 (''yes'' = ''no'' \<longrightarrow> \<not> parent_notified r)) [ann, bo, late] = [late]"
proof -
  have h: "''yes'' = ''all'' \<or> ''yes'' = ''yes'' \<or> ''yes'' = ''no''"
    by simp
  have "filteredCurrentRecords [ann, bo, late] ''NN'' ''late'' ''yes'' = [late]"
    by code_simp
  then show ?thesis
    using h C8_filter_three_predicates [OF h, of "[ann, bo, late]" "''NN''" "''late''"]
    by simp
qed

text \<open>
  Claim C10.  With the empty search text, the status filter \<open>all\<close> and the notification
  filter \<open>all\<close>, the filter returns its input list, every record at its place.
\<close>

theorem C10_filter_identity:
  "filteredCurrentRecords rs [] ''all'' ''all'' = rs"
  by (simp add: filteredCurrentRecords_def matches_row_def toLowerCase_def str_includes_empty)

theorem C10_filter_identity_witness:
  "filteredCurrentRecords [ann, bo, late, ann] [] ''all'' ''all'' = [ann, bo, late, ann]"
  using C10_filter_identity [of "[ann, bo, late, ann]"] by simp

end
